theory Spec2Isabelle
  imports
    Complex_Main
    "HOL-Library.Multiset"
    "HOL-Library.Char_ord"
    "HOL-Library.List_Lexorder"
    "HOL-Library.Word"
begin

section \<open>Skin-lesion classification notebook: the data pipeline\<close>

text \<open>
  The notebook \<^verbatim>\<open>classification.ipynb\<close> is a linear script over pandas, scikit-learn,
  Pillow, NumPy and Keras. Each step of the script is a definition below, named after
  the variable or function of the script it computes. A library call is written out as
  the function the library documents for exactly the arguments the script passes; what
  a library leaves to a random generator, a resampling filter, the file system or the
  trained network is a parameter of the definitions, never a chosen value.
  Strings are compared as Python compares them: lexicographically, character by
  character.
\<close>

subsection \<open>Exceptions\<close>

text \<open>
  The script catches nothing, so the first exception raised ends the run. A step that can
  raise returns \<open>py_error + 'a\<close>, with \<open>Inl\<close> for the exception.
\<close>

datatype py_error =
  ValueError | IndexError | AttributeError | FileNotFoundError | UnidentifiedImageError

text \<open>Applying a raising function to each element in turn: the first exception wins.\<close>

fun traverse :: "('a \<Rightarrow> py_error + 'b) \<Rightarrow> 'a list \<Rightarrow> py_error + 'b list" where
  "traverse f [] = Inr []"
| "traverse f (x # xs) =
     (case f x of
        Inl e \<Rightarrow> Inl e
      | Inr y \<Rightarrow> (case traverse f xs of Inl e \<Rightarrow> Inl e | Inr ys \<Rightarrow> Inr (y # ys)))"

subsection \<open>The metadata table (line 24)\<close>

text \<open>
  One row of \<^verbatim>\<open>HAM10000_metadata.csv\<close>, with the columns the script reads. A data
  frame is the list of its rows, each with its pandas index label; \<^verbatim>\<open>read_csv\<close>
  numbers the rows from 0.
\<close>

record lesion =
  image_id :: string
  dx :: string
  sex :: string
  age :: "nat option"
  localization :: string

record labelled = lesion +
  label :: nat

type_synonym 'r frame = "(nat \<times> 'r) list"

definition read_csv :: "lesion list \<Rightarrow> lesion frame" where
  "read_csv rows = zip [0..<length rows] rows"

definition SIZE :: nat where
  "SIZE = 32"

subsection \<open>Label encoding (lines 29-31)\<close>

text \<open>
  \<^verbatim>\<open>LabelEncoder.fit\<close> stores \<^verbatim>\<open>classes_ = np.unique(y)\<close>: the distinct values,
  sorted. \<^verbatim>\<open>transform\<close> maps a value to its position in \<^verbatim>\<open>classes_\<close> and raises
  ValueError on a value that was not fitted; \<^verbatim>\<open>inverse_transform\<close> indexes
  \<^verbatim>\<open>classes_\<close> and raises ValueError on an id outside it.
\<close>

definition np_unique :: "'a::linorder list \<Rightarrow> 'a list" where
  "np_unique y = sort (remdups y)"

fun index_of :: "'a list \<Rightarrow> 'a \<Rightarrow> nat option" where
  "index_of [] y = None"
| "index_of (x # xs) y = (if x = y then Some 0 else map_option Suc (index_of xs y))"

definition le_fit :: "string list \<Rightarrow> string list" where
  "le_fit y = np_unique y"

definition le_transform :: "string list \<Rightarrow> string list \<Rightarrow> py_error + nat list" where
  "le_transform classes y =
     traverse (\<lambda>v. case index_of classes v of None \<Rightarrow> Inl ValueError | Some i \<Rightarrow> Inr i) y"

definition le_inverse_transform :: "string list \<Rightarrow> nat list \<Rightarrow> py_error + string list" where
  "le_inverse_transform classes ids =
     traverse (\<lambda>i. if i < length classes then Inr (classes ! i) else Inl ValueError) ids"

text \<open>Lines 29-31: fit on the \<^verbatim>\<open>dx\<close> column, then add the \<^verbatim>\<open>label\<close> column.\<close>

definition le :: "lesion frame \<Rightarrow> string list" where
  "le skin_df = le_fit (map (\<lambda>r. dx (snd r)) skin_df)"

definition with_label :: "lesion \<Rightarrow> nat \<Rightarrow> labelled" where
  "with_label r l =
     \<lparr>image_id = image_id r, dx = dx r, sex = sex r, age = age r,
      localization = localization r, label = l\<rparr>"

definition add_label :: "lesion frame \<Rightarrow> py_error + labelled frame" where
  "add_label skin_df =
     (case le_transform (le skin_df) (map (\<lambda>r. dx (snd r)) skin_df) of
        Inl e \<Rightarrow> Inl e
      | Inr ls \<Rightarrow> Inr (map2 (\<lambda>r l. (fst r, with_label (snd r) l)) skin_df ls))"

subsection \<open>Random generators\<close>

text \<open>
  NumPy's \<^verbatim>\<open>RandomState\<close> is a parameter: \<open>rs_seed s\<close> is the generator
  \<^verbatim>\<open>RandomState(s)\<close>, \<open>rs_randint g n k\<close> the array \<^verbatim>\<open>g.randint(0, n, size=k)\<close> and
  \<open>rs_permutation g n\<close> the array \<^verbatim>\<open>g.permutation(n)\<close>. What NumPy documents of them is
  stated as two predicates: the draws of \<^verbatim>\<open>randint\<close> are \<open>k\<close> numbers below \<open>n\<close>, and
  \<^verbatim>\<open>permutation\<close> returns the numbers below \<open>n\<close> in some order.
\<close>

record 'g random_state =
  rs_seed :: "nat \<Rightarrow> 'g"
  rs_randint :: "'g \<Rightarrow> nat \<Rightarrow> nat \<Rightarrow> nat list"
  rs_permutation :: "'g \<Rightarrow> nat \<Rightarrow> nat list"

definition randint_ok :: "'g random_state \<Rightarrow> bool" where
  "randint_ok R \<longleftrightarrow>
     (\<forall>g n k. 0 < n \<longrightarrow> length (rs_randint R g n k) = k \<and> (\<forall>i \<in> set (rs_randint R g n k). i < n))"

definition permutation_ok :: "'g random_state \<Rightarrow> bool" where
  "permutation_ok R \<longleftrightarrow> (\<forall>g n. mset (rs_permutation R g n) = mset [0..<n])"

text \<open>
  scikit-learn's \<^verbatim>\<open>check_random_state\<close>: an integer seeds a fresh generator, \<^verbatim>\<open>None\<close>
  stands for the generator of the \<^verbatim>\<open>np.random\<close> module, whose state depends on
  everything drawn from it before. That state is the argument \<open>glob\<close>.
\<close>

datatype seed_arg = Seed_None | Seed_Int nat

fun check_random_state :: "'g random_state \<Rightarrow> 'g \<Rightarrow> seed_arg \<Rightarrow> 'g" where
  "check_random_state R glob Seed_None = glob"
| "check_random_state R glob (Seed_Int s) = rs_seed R s"

text \<open>\<^verbatim>\<open>_safe_indexing\<close>: rows by position; a position outside the array raises.\<close>

definition safe_indexing :: "'a list \<Rightarrow> nat list \<Rightarrow> py_error + 'a list" where
  "safe_indexing a indices =
     traverse (\<lambda>i. if i < length a then Inr (a ! i) else Inl IndexError) indices"

subsection \<open>Class balancing (lines 55-57)\<close>

text \<open>
  \<^verbatim>\<open>resample(a, replace=True, n_samples=k, random_state=s)\<close> draws
  \<^verbatim>\<open>randint(0, len(a), size=k)\<close> and returns those rows; on an empty \<open>a\<close> the draw
  raises ValueError.
\<close>

definition resample :: "'g random_state \<Rightarrow> 'g \<Rightarrow> 'a list \<Rightarrow> nat \<Rightarrow> seed_arg \<Rightarrow> py_error + 'a list" where
  "resample R glob a max_n_samples rs =
     (let g = check_random_state R glob rs; n = length a in
      if n = 0 then Inl ValueError
      else safe_indexing a (rs_randint R g n max_n_samples))"

definition n_samples :: nat where
  "n_samples = 400"

definition df_list :: "'g random_state \<Rightarrow> 'g \<Rightarrow> labelled frame \<Rightarrow> py_error + labelled frame list" where
  "df_list R glob skin_df =
     traverse (\<lambda>i. resample R glob (filter (\<lambda>r. label (snd r) = i) skin_df) n_samples (Seed_Int 42))
       [0..<7]"

definition skin_df_balanced :: "'g random_state \<Rightarrow> 'g \<Rightarrow> labelled frame \<Rightarrow> py_error + labelled frame" where
  "skin_df_balanced R glob skin_df =
     (case df_list R glob skin_df of Inl e \<Rightarrow> Inl e | Inr dfs \<Rightarrow> Inr (concat dfs))"

text \<open>Lines 24 to 57 in one: the balanced frame of a metadata table.\<close>

definition balanced_from_csv :: "'g random_state \<Rightarrow> 'g \<Rightarrow> lesion list \<Rightarrow> py_error + labelled frame" where
  "balanced_from_csv R glob rows =
     (case add_label (read_csv rows) of
        Inl e \<Rightarrow> Inl e
      | Inr skin_df \<Rightarrow> skin_df_balanced R glob skin_df)"

subsection \<open>Reading the images (lines 60-62)\<close>

text \<open>
  Line 60 keys every path that \<^verbatim>\<open>glob\<close> returned by its file name without the
  extension (\<^verbatim>\<open>os.path.basename\<close>, \<^verbatim>\<open>os.path.splitext\<close>, POSIX flavour); a later
  path replaces an earlier one with the same key. The list of paths that \<^verbatim>\<open>glob\<close>
  returned is the parameter \<open>files\<close>.
\<close>

definition basename :: "string \<Rightarrow> string" where
  "basename p = rev (takeWhile (\<lambda>c. c \<noteq> CHR ''/'') (rev p))"

definition splitext :: "string \<Rightarrow> string \<times> string" where
  "splitext p =
     (let name = basename p;
          dir = take (length p - length name) p;
          ext = rev (takeWhile (\<lambda>c. c \<noteq> CHR ''.'') (rev name));
          stem = take (length name - length ext - 1) name
      in if CHR ''.'' \<in> set name \<and> list_ex (\<lambda>c. c \<noteq> CHR ''.'') stem
         then (dir @ stem, CHR ''.'' # ext)
         else (p, []))"

definition image_path :: "string list \<Rightarrow> (string \<rightharpoonup> string)" where
  "image_path files = fold (\<lambda>x m. m(fst (splitext (basename x)) \<mapsto> x)) files Map.empty"

text \<open>
  A decoded JPEG has one of three modes, each with 8-bit samples; \<open>getpixel\<close> gives
  the sample of a band at a position. \<^verbatim>\<open>Image.resize\<close> makes a new image of the
  requested size in the same mode; which sample lands where is decided by Pillow's
  resampling filter, the parameter \<open>resampler\<close>. \<^verbatim>\<open>np.asarray\<close> of an image is a
  height by width array for a single band, height by width by bands otherwise.
\<close>

datatype mode = Mode_L | Mode_RGB | Mode_CMYK

fun bands :: "mode \<Rightarrow> nat" where
  "bands Mode_L = 1"
| "bands Mode_RGB = 3"
| "bands Mode_CMYK = 4"

record pil_image =
  im_mode :: mode
  im_size :: "nat \<times> nat"
  getpixel :: "nat \<times> nat \<Rightarrow> nat \<Rightarrow> 8 word"

type_synonym resampling = "pil_image \<Rightarrow> nat \<times> nat \<Rightarrow> nat \<times> nat \<Rightarrow> nat \<Rightarrow> 8 word"

definition resize :: "resampling \<Rightarrow> pil_image \<Rightarrow> nat \<times> nat \<Rightarrow> pil_image" where
  "resize resampler im sz = \<lparr>im_mode = im_mode im, im_size = sz, getpixel = resampler im sz\<rparr>"

datatype 'a ndarray = Array2 "'a list list" | Array3 "'a list list list"

fun shape :: "'a ndarray \<Rightarrow> nat list" where
  "shape (Array2 rows) = [length rows, (case rows of [] \<Rightarrow> 0 | r # _ \<Rightarrow> length r)]"
| "shape (Array3 rows) =
     [length rows,
      (case rows of [] \<Rightarrow> 0 | r # _ \<Rightarrow> length r),
      (case rows of [] \<Rightarrow> 0 | r # _ \<Rightarrow> (case r of [] \<Rightarrow> 0 | c # _ \<Rightarrow> length c))]"

fun elements :: "'a ndarray \<Rightarrow> 'a list" where
  "elements (Array2 rows) = concat rows"
| "elements (Array3 rows) = concat (concat rows)"

definition np_asarray :: "pil_image \<Rightarrow> 8 word ndarray" where
  "np_asarray im =
     (let (w, h) = im_size im in
      if bands (im_mode im) = 1
      then Array2 (map (\<lambda>y. map (\<lambda>x. getpixel im (x, y) 0) [0..<w]) [0..<h])
      else Array3 (map (\<lambda>y. map (\<lambda>x. map (\<lambda>b. getpixel im (x, y) b) [0..<bands (im_mode im)])
                                    [0..<w]) [0..<h]))"

text \<open>
  \<^verbatim>\<open>Image.open\<close>: the parameter \<open>disk\<close> gives, for a path, the decoded file or the
  exception that opening it raises. For a key that is not in the dictionary,
  \<^verbatim>\<open>image_path.get\<close> returns \<^verbatim>\<open>None\<close>, and \<^verbatim>\<open>Image.open(None)\<close> raises
  AttributeError.
\<close>

definition Image_open :: "(string \<Rightarrow> py_error + pil_image) \<Rightarrow> string option \<Rightarrow> py_error + pil_image" where
  "Image_open disk fp = (case fp of None \<Rightarrow> Inl AttributeError | Some p \<Rightarrow> disk p)"

definition path_column :: "string list \<Rightarrow> labelled frame \<Rightarrow> string option list" where
  "path_column files balanced = map (\<lambda>r. image_path files (image_id (snd r))) balanced"

definition image_column ::
  "(string \<Rightarrow> py_error + pil_image) \<Rightarrow> resampling \<Rightarrow> string option list \<Rightarrow> py_error + 8 word ndarray list" where
  "image_column disk resampler paths =
     traverse (\<lambda>x. case Image_open disk x of
                      Inl e \<Rightarrow> Inl e
                    | Inr im \<Rightarrow> Inr (np_asarray (resize resampler im (SIZE, SIZE)))) paths"

definition read_images ::
  "string list \<Rightarrow> (string \<Rightarrow> py_error + pil_image) \<Rightarrow> resampling \<Rightarrow> labelled frame \<Rightarrow>
   py_error + 8 word ndarray list" where
  "read_images files disk resampler balanced = image_column disk resampler (path_column files balanced)"

subsection \<open>Preparing the data (lines 74-77)\<close>

text \<open>
  Line 74 stacks the image arrays, which raises ValueError unless all have one shape, and
  divides every sample by 255. Line 76 is Keras' \<^verbatim>\<open>to_categorical\<close>: a row of
  \<open>num_classes\<close> zeros with a one written at the label, an IndexError for a label that
  is not below \<open>num_classes\<close>.
\<close>

definition div255 :: "8 word \<Rightarrow> real" where
  "div255 p = real (unat p) / 255"

definition prepare_X :: "8 word ndarray list \<Rightarrow> py_error + real ndarray list" where
  "prepare_X images =
     (if \<exists>a \<in> set images. \<exists>b \<in> set images. shape a \<noteq> shape b then Inl ValueError
      else Inr (map (map_ndarray div255) images))"

definition X_array ::
  "string list \<Rightarrow> (string \<Rightarrow> py_error + pil_image) \<Rightarrow> resampling \<Rightarrow> labelled frame \<Rightarrow>
   py_error + real ndarray list" where
  "X_array files disk resampler balanced =
     (case read_images files disk resampler balanced of
        Inl e \<Rightarrow> Inl e
      | Inr images \<Rightarrow> prepare_X images)"

definition to_categorical :: "nat list \<Rightarrow> nat \<Rightarrow> py_error + real list list" where
  "to_categorical y num_classes =
     traverse (\<lambda>c. if c < num_classes then Inr ((replicate num_classes 0)[c := 1])
                    else Inl IndexError) y"

definition Y_cat :: "labelled frame \<Rightarrow> py_error + real list list" where
  "Y_cat balanced = to_categorical (map (\<lambda>r. label (snd r)) balanced) 7"

text \<open>
  \<^verbatim>\<open>train_test_split(X, Y_cat, test_size=0.25, random_state=42)\<close>: the test part has
  \<open>ceil(test_size * n)\<close> rows and the train part the rest; a shuffle of the row
  positions gives the test rows first, then the train rows. Arrays of different lengths,
  a test size outside (0, 1) and an empty train part raise ValueError.
\<close>

definition validate_shuffle_split :: "nat \<Rightarrow> rat \<Rightarrow> py_error + nat \<times> nat" where
  "validate_shuffle_split n test_size =
     (if test_size \<le> 0 \<or> 1 \<le> test_size then Inl ValueError
      else let n_test = nat \<lceil>test_size * of_nat n\<rceil>; n_train = n - n_test in
        if n_train = 0 then Inl ValueError else Inr (n_train, n_test))"

definition shuffle_split :: "'g random_state \<Rightarrow> 'g \<Rightarrow> nat \<Rightarrow> nat \<Rightarrow> nat \<Rightarrow> seed_arg \<Rightarrow> nat list \<times> nat list" where
  "shuffle_split R glob n n_train n_test rs =
     (let permutation = rs_permutation R (check_random_state R glob rs) n;
          ind_test = take n_test permutation;
          ind_train = take n_train (drop n_test permutation)
      in (ind_train, ind_test))"

definition train_test_split ::
  "'g random_state \<Rightarrow> 'g \<Rightarrow> 'a list \<Rightarrow> 'b list \<Rightarrow> rat \<Rightarrow> seed_arg \<Rightarrow>
   py_error + 'a list \<times> 'a list \<times> 'b list \<times> 'b list" where
  "train_test_split R glob X Y test_size rs =
     (if length X \<noteq> length Y then Inl ValueError
      else case validate_shuffle_split (length X) test_size of
        Inl e \<Rightarrow> Inl e
      | Inr (n_train, n_test) \<Rightarrow>
          (let (train, test) = shuffle_split R glob (length X) n_train n_test rs in
           case safe_indexing X train of Inl e \<Rightarrow> Inl e | Inr x_train \<Rightarrow>
          (case safe_indexing X test of Inl e \<Rightarrow> Inl e | Inr x_test \<Rightarrow>
          (case safe_indexing Y train of Inl e \<Rightarrow> Inl e | Inr y_train \<Rightarrow>
          (case safe_indexing Y test of Inl e \<Rightarrow> Inl e | Inr y_test \<Rightarrow>
             Inr (x_train, x_test, y_train, y_test))))))"

subsection \<open>Evaluation (lines 126-136)\<close>

text \<open>
  The fitted network is the parameter \<open>model\<close>: \<^verbatim>\<open>model.predict\<close> maps a batch of
  image arrays to one row of scores per image. \<^verbatim>\<open>np.argmax\<close> is the first position
  of the largest entry and raises ValueError on an empty row.
\<close>

fun argmax_from :: "nat \<Rightarrow> real \<Rightarrow> nat \<Rightarrow> real list \<Rightarrow> nat" where
  "argmax_from best bv i [] = best"
| "argmax_from best bv i (x # xs) =
     (if bv < x then argmax_from i x (Suc i) xs else argmax_from best bv (Suc i) xs)"

definition np_argmax :: "real list \<Rightarrow> py_error + nat" where
  "np_argmax v = (case v of [] \<Rightarrow> Inl ValueError | x # xs \<Rightarrow> Inr (argmax_from 0 x 1 xs))"

text \<open>
  \<^verbatim>\<open>confusion_matrix(y_true, y_pred)\<close> without \<^verbatim>\<open>labels\<close>: the labels are the
  sorted distinct values that occur in either argument, and entry (i, j) counts the
  positions whose true value is the i-th label and whose predicted value is the j-th.
\<close>

definition unique_labels :: "nat list \<Rightarrow> nat list \<Rightarrow> nat list" where
  "unique_labels y_true y_pred = np_unique (y_true @ y_pred)"

definition confusion_matrix :: "nat list \<Rightarrow> nat list \<Rightarrow> py_error + nat list list" where
  "confusion_matrix y_true y_pred =
     (if length y_true \<noteq> length y_pred then Inl ValueError
      else let labels = unique_labels y_true y_pred in
        Inr (map (\<lambda>a. map (\<lambda>b. length (filter (\<lambda>tp. tp = (a, b)) (zip y_true y_pred))) labels)
               labels))"

text \<open>
  Line 136. NumPy divides elementwise; 0 / 0 is not a number, written \<open>None\<close>.
\<close>

definition incorr_fraction :: "nat list list \<Rightarrow> real option list" where
  "incorr_fraction cm =
     map (\<lambda>i. let d = (cm ! i) ! i; s = sum_list (cm ! i) in
               if s = 0 then None else Some (1 - real d / real s))
       [0..<length cm]"

definition evaluate ::
  "('x list \<Rightarrow> real list list) \<Rightarrow> 'x list \<Rightarrow> real list list \<Rightarrow>
   py_error + nat list list \<times> real option list" where
  "evaluate model x_test y_test =
     (case traverse np_argmax (model x_test) of Inl e \<Rightarrow> Inl e | Inr y_pred_classes \<Rightarrow>
     (case traverse np_argmax y_test of Inl e \<Rightarrow> Inl e | Inr y_true \<Rightarrow>
     (case confusion_matrix y_true y_pred_classes of Inl e \<Rightarrow> Inl e | Inr cm \<Rightarrow>
        Inr (cm, incorr_fraction cm))))"

subsection \<open>Single-image inference (lines 142-157)\<close>

definition class_names :: "string list" where
  "class_names =
     [''Melanocytic nevi'', ''Melanoma'', ''Benign keratosis-like lesions'',
      ''Basal cell carcinoma'', ''Actinic keratoses'', ''Vascular lesions'', ''Dermatofibroma'']"

definition load_and_preprocess_image ::
  "(string \<Rightarrow> py_error + pil_image) \<Rightarrow> resampling \<Rightarrow> string \<Rightarrow> py_error + real ndarray list" where
  "load_and_preprocess_image disk resampler path =
     (case Image_open disk (Some path) of
        Inl e \<Rightarrow> Inl e
      | Inr img \<Rightarrow> Inr [map_ndarray div255 (np_asarray (resize resampler img (SIZE, SIZE)))])"

definition predict_skin_cancer ::
  "(string \<Rightarrow> py_error + pil_image) \<Rightarrow> resampling \<Rightarrow> (real ndarray list \<Rightarrow> real list list) \<Rightarrow>
   string \<Rightarrow> py_error + string" where
  "predict_skin_cancer disk resampler model img_path =
     (case load_and_preprocess_image disk resampler img_path of Inl e \<Rightarrow> Inl e | Inr img \<Rightarrow>
     (case traverse np_argmax (model img) of Inl e \<Rightarrow> Inl e | Inr predicted_class \<Rightarrow>
     (case predicted_class of
        [] \<Rightarrow> Inl IndexError
      | c # _ \<Rightarrow> if c < length class_names then Inr (class_names ! c) else Inl IndexError)))"

subsection \<open>Concrete inputs\<close>

text \<open>
  The seven diagnosis codes of the HAM10000 metadata, each with the lesion name the
  dataset documents for it, and a table with one lesion per code.
\<close>

definition ham10000_dx :: "string list" where
  "ham10000_dx = [''nv'', ''mel'', ''bkl'', ''bcc'', ''akiec'', ''vasc'', ''df'']"

definition lesion_type_dict :: "string \<rightharpoonup> string" where
  "lesion_type_dict =
     map_of [(''nv'', ''Melanocytic nevi''), (''mel'', ''Melanoma''),
             (''bkl'', ''Benign keratosis-like lesions''), (''bcc'', ''Basal cell carcinoma''),
             (''akiec'', ''Actinic keratoses''), (''vasc'', ''Vascular lesions''),
             (''df'', ''Dermatofibroma'')]"

definition seven_rows :: "lesion list" where
  "seven_rows =
     map (\<lambda>c. \<lparr>image_id = ''ISIC_'' @ c, dx = c, sex = ''male'', age = Some 50,
                localization = ''back''\<rparr>) ham10000_dx"

text \<open>The row of that table, with its index label, that gets label id \<open>l\<close>.\<close>

definition seven_by_label :: "nat \<Rightarrow> nat \<times> labelled" where
  "seven_by_label l =
     (\<lambda>(i, c). (i, \<lparr>image_id = ''ISIC_'' @ c, dx = c, sex = ''male'', age = Some 50,
                      localization = ''back'', label = l\<rparr>))
       ([(4, ''akiec''), (3, ''bcc''), (2, ''bkl''), (6, ''df''), (1, ''mel''), (0, ''nv''),
         (5, ''vasc'')] ! l)"

text \<open>
  The paths of the seven image files, one record of the table, a grey-scale and a colour
  JPEG of the size of the dataset's images, and nearest-neighbour resampling.
\<close>

definition seven_files :: "string list" where
  "seven_files = map (\<lambda>c. ''data/HAM10000/part_1/ISIC_'' @ c @ ''.jpg'') ham10000_dx"

definition one_record :: "labelled frame" where
  "one_record =
     [(4, \<lparr>image_id = ''ISIC_akiec'', dx = ''akiec'', sex = ''male'', age = Some 50,
           localization = ''back'', label = 0\<rparr>)]"

definition grey_jpeg :: pil_image where
  "grey_jpeg = \<lparr>im_mode = Mode_L, im_size = (600, 450), getpixel = (\<lambda>xy b. 128)\<rparr>"

definition colour_jpeg :: pil_image where
  "colour_jpeg = \<lparr>im_mode = Mode_RGB, im_size = (600, 450), getpixel = (\<lambda>xy b. 255)\<rparr>"

definition nearest :: resampling where
  "nearest im sz xy b =
     getpixel im (fst xy * fst (im_size im) div fst sz, snd xy * snd (im_size im) div snd sz) b"

text \<open>
  A network that gives every image the same scores, all on class \<open>c\<close>, and the
  one-hot rows of the seven class ids.
\<close>

definition always_predicts :: "nat \<Rightarrow> 'x list \<Rightarrow> real list list" where
  "always_predicts c batch = map (\<lambda>_. (replicate 7 0)[c := 1]) batch"

definition seven_one_hot :: "real list list" where
  "seven_one_hot = map (\<lambda>c. (replicate 7 0)[c := 1]) [0..<7]"

text \<open>
  A generator that meets both predicates: its draws walk through the range from the
  state on, its permutation is the range reversed.
\<close>

definition stride_rng :: "nat random_state" where
  "stride_rng =
     \<lparr>rs_seed = (\<lambda>s. s),
      rs_randint = (\<lambda>g n k. map (\<lambda>j. (g + j) mod n) [0..<k]),
      rs_permutation = (\<lambda>g n. rev [0..<n])\<rparr>"

section \<open>Sequencing and indexing\<close>

lemma traverse_map:
  "(\<And>x. x \<in> set xs \<Longrightarrow> f x = Inr (g x)) \<Longrightarrow> traverse f xs = Inr (map g xs)"
  by (induction xs) auto

lemma traverse_Inr_length:
  "traverse f xs = Inr ys \<Longrightarrow> length ys = length xs"
  by (induction xs arbitrary: ys) (auto split: sum.splits)

lemma traverse_Inr_nth:
  "traverse f xs = Inr ys \<Longrightarrow> k < length xs \<Longrightarrow> f (xs ! k) = Inr (ys ! k)"
proof (induction xs arbitrary: ys k)
  case Nil
  then show ?case by simp
next
  case (Cons x xs)
  then show ?case by (cases k) (auto split: sum.splits)
qed

lemma traverse_Inl:
  "x \<in> set xs \<Longrightarrow> f x = Inl e \<Longrightarrow> \<exists>e'. traverse f xs = Inl e'"
  by (induction xs) (auto split: sum.splits)

lemma safe_indexing_Inr:
  "\<forall>i \<in> set ix. i < length a \<Longrightarrow> safe_indexing a ix = Inr (map ((!) a) ix)"
  unfolding safe_indexing_def by (rule traverse_map) simp

lemma safe_indexing_in_range:
  assumes "safe_indexing a ix = Inr ys" and "i \<in> set ix"
  shows "i < length a"
proof (rule ccontr)
  assume "\<not> i < length a"
  then have "(if i < length a then Inr (a ! i) else Inl IndexError) = Inl IndexError"
    by simp
  from traverse_Inl [of i ix "\<lambda>i. if i < length a then Inr (a ! i) else Inl IndexError", OF assms(2) this]
    assms(1) show False
    by (simp add: safe_indexing_def)
qed

lemma safe_indexing_D:
  assumes "safe_indexing a ix = Inr ys"
  shows "ys = map ((!) a) ix"
proof -
  have "\<forall>i \<in> set ix. i < length a" using safe_indexing_in_range [OF assms] by blast
  from safe_indexing_Inr [OF this] assms show ?thesis by simp
qed

lemma resample_Inr:
  assumes "randint_ok R" and "a \<noteq> []"
  shows "resample R glob a k rs =
           Inr (map ((!) a) (rs_randint R (check_random_state R glob rs) (length a) k))"
proof -
  have "\<forall>i \<in> set (rs_randint R (check_random_state R glob rs) (length a) k). i < length a"
    using assms by (simp add: randint_ok_def)
  from safe_indexing_Inr [OF this] assms(2) show ?thesis
    by (simp add: resample_def)
qed

lemma resample_subset:
  assumes "resample R glob a k rs = Inr ys"
  shows "set ys \<subseteq> set a"
proof -
  from assms have si: "safe_indexing a (rs_randint R (check_random_state R glob rs) (length a) k) = Inr ys"
    by (simp add: resample_def Let_def split: if_splits)
  from safe_indexing_D [OF si] safe_indexing_in_range [OF si] show ?thesis
    by auto
qed

lemma concat_single_block:
  "i < n \<Longrightarrow> concat (map (\<lambda>j. if j = i then x else []) [0..<n]) = x"
  by (induction n) (auto simp: less_Suc_eq)


section \<open>The label encoder\<close>

lemma index_of_complete:
  "y \<in> set xs \<Longrightarrow> \<exists>i. index_of xs y = Some i \<and> i < length xs \<and> xs ! i = y"
  by (induction xs) auto

lemma index_of_sound:
  "index_of xs y = Some i \<Longrightarrow> i < length xs \<and> xs ! i = y"
  by (induction xs arbitrary: i) (auto split: if_splits)

lemma index_of_nth:
  "distinct xs \<Longrightarrow> i < length xs \<Longrightarrow> index_of xs (xs ! i) = Some i"
proof (induction xs arbitrary: i)
  case Nil
  then show ?case by simp
next
  case (Cons x xs)
  show ?case
  proof (cases i)
    case 0
    then show ?thesis by simp
  next
    case (Suc j)
    with Cons.prems have "j < length xs" "xs ! j \<noteq> x" by auto
    with Cons Suc show ?thesis by auto
  qed
qed

lemma set_np_unique [simp]: "set (np_unique y) = set y"
  by (simp add: np_unique_def)

lemma distinct_np_unique [simp]: "distinct (np_unique y)"
  by (simp add: np_unique_def)

lemma sorted_np_unique [simp]: "sorted (np_unique y)"
  by (simp add: np_unique_def)

lemma le_transform_column:
  "set ys \<subseteq> set cs \<Longrightarrow>
   le_transform cs ys = Inr (map (\<lambda>y. the (index_of cs y)) ys)"
proof (induction ys)
  case Nil
  then show ?case by (simp add: le_transform_def)
next
  case (Cons y ys)
  then obtain i where "index_of cs y = Some i" using index_of_complete [of y cs] by auto
  with Cons show ?case by (simp add: le_transform_def)
qed

lemma le_inverse_transform_column:
  "set ys \<subseteq> set cs \<Longrightarrow>
   le_inverse_transform cs (map (\<lambda>y. the (index_of cs y)) ys) = Inr ys"
proof (induction ys)
  case Nil
  then show ?case by (simp add: le_inverse_transform_def)
next
  case (Cons y ys)
  then obtain i where "index_of cs y = Some i" "i < length cs" "cs ! i = y"
    using index_of_complete [of y cs] by auto
  with Cons show ?case by (simp add: le_inverse_transform_def)
qed

text \<open>
  Claim C4. Encoding the \<^verbatim>\<open>dx\<close> column with the encoder fitted on it and decoding the
  ids gives the column back. Every fitted string has an id below the number of classes
  that decodes to it, and every id below the number of classes decodes to a fitted string
  that encodes to it: the encoder is a bijection between the strings and the ids.
\<close>

theorem label_encoder_roundtrip:
  "(\<exists>ids. le_transform (le_fit ys) ys = Inr ids \<and> le_inverse_transform (le_fit ys) ids = Inr ys)
   \<and> (\<forall>y \<in> set ys. \<exists>i < length (le_fit ys).
         le_transform (le_fit ys) [y] = Inr [i] \<and> le_inverse_transform (le_fit ys) [i] = Inr [y])
   \<and> (\<forall>i < length (le_fit ys). \<exists>y \<in> set ys.
         le_inverse_transform (le_fit ys) [i] = Inr [y] \<and> le_transform (le_fit ys) [y] = Inr [i])"
proof (intro conjI ballI allI impI)
  have sub: "set ys \<subseteq> set (le_fit ys)" by (simp add: le_fit_def)
  show "\<exists>ids. le_transform (le_fit ys) ys = Inr ids \<and> le_inverse_transform (le_fit ys) ids = Inr ys"
    using le_transform_column [OF sub] le_inverse_transform_column [OF sub] by blast
next
  fix y assume "y \<in> set ys"
  then have "y \<in> set (le_fit ys)" by (simp add: le_fit_def)
  then obtain i where "index_of (le_fit ys) y = Some i" "i < length (le_fit ys)" "le_fit ys ! i = y"
    using index_of_complete by metis
  then show "\<exists>i < length (le_fit ys).
      le_transform (le_fit ys) [y] = Inr [i] \<and> le_inverse_transform (le_fit ys) [i] = Inr [y]"
    by (auto simp: le_transform_def le_inverse_transform_def)
next
  fix i assume i: "i < length (le_fit ys)"
  then have "le_fit ys ! i \<in> set ys" using nth_mem [OF i] by (simp add: le_fit_def)
  moreover have "index_of (le_fit ys) (le_fit ys ! i) = Some i"
    using i by (simp add: index_of_nth le_fit_def)
  ultimately show "\<exists>y \<in> set ys.
      le_inverse_transform (le_fit ys) [i] = Inr [y] \<and> le_transform (le_fit ys) [y] = Inr [i]"
    using i by (auto simp: le_transform_def le_inverse_transform_def)
qed

theorem label_encoder_roundtrip_witness:
  "''nv'' \<in> set [''nv'', ''mel'', ''bkl'', ''nv'', ''bcc'', ''akiec'', ''vasc'', ''df'']
   \<and> (\<exists>i. i < length (le_fit [''nv'', ''mel'', ''bkl'', ''nv'', ''bcc'', ''akiec'', ''vasc'', ''df''])
        \<and> le_transform (le_fit [''nv'', ''mel'', ''bkl'', ''nv'', ''bcc'', ''akiec'', ''vasc'', ''df'']) [''nv''] = Inr [i]
        \<and> le_inverse_transform (le_fit [''nv'', ''mel'', ''bkl'', ''nv'', ''bcc'', ''akiec'', ''vasc'', ''df'']) [i] = Inr [''nv''])"
proof -
  have m: "''nv'' \<in> set [''nv'', ''mel'', ''bkl'', ''nv'', ''bcc'', ''akiec'', ''vasc'', ''df'']"
    by simp
  from label_encoder_roundtrip [of "[''nv'', ''mel'', ''bkl'', ''nv'', ''bcc'', ''akiec'', ''vasc'', ''df'']"] m
  show ?thesis by blast
qed

section \<open>The class balancer\<close>

lemma stride_rng_randint_ok: "randint_ok stride_rng"
  by (simp add: randint_ok_def stride_rng_def)

lemma stride_rng_permutation_ok: "permutation_ok stride_rng"
  by (simp add: permutation_ok_def stride_rng_def)

lemma seven_labels:
  "map_sum id (map (\<lambda>r. (fst r, label (snd r)))) (add_label (read_csv seven_rows))
     = Inr [(0, 5), (1, 4), (2, 2), (3, 1), (4, 0), (5, 6), (6, 3)]"
  by code_simp

lemma df_list_blocks:
  assumes "df_list R glob df = Inr dfs"
  shows "length dfs = 7"
    and "\<And>i. i < 7 \<Longrightarrow>
           resample R glob (filter (\<lambda>r. label (snd r) = i) df) n_samples (Seed_Int 42) = Inr (dfs ! i)"
proof -
  show "length dfs = 7" using traverse_Inr_length [OF assms [unfolded df_list_def]] by simp
  fix i :: nat assume "i < 7"
  then show "resample R glob (filter (\<lambda>r. label (snd r) = i) df) n_samples (Seed_Int 42) = Inr (dfs ! i)"
    using traverse_Inr_nth [OF assms [unfolded df_list_def], of i] by simp
qed

lemma balanced_label_filter:
  assumes "df_list R glob df = Inr dfs" and "i < 7"
  shows "filter (\<lambda>r. label (snd r) = i) (concat dfs) = dfs ! i"
proof -
  have len: "length dfs = 7" by (rule df_list_blocks(1) [OF assms(1)])
  have blk: "filter (\<lambda>r. label (snd r) = i) (dfs ! j) = (if j = i then dfs ! i else [])" if "j < 7" for j
  proof -
    have "set (dfs ! j) \<subseteq> set (filter (\<lambda>r. label (snd r) = j) df)"
      by (rule resample_subset [OF df_list_blocks(2) [OF assms(1) that]])
    then have "\<forall>r \<in> set (dfs ! j). label (snd r) = j" by auto
    then show ?thesis by (auto simp: filter_empty_conv)
  qed
  have "dfs = map ((!) dfs) [0..<7]" using len by (metis map_nth)
  then have "filter (\<lambda>r. label (snd r) = i) (concat dfs)
      = concat (map (\<lambda>j. filter (\<lambda>r. label (snd r) = i) (dfs ! j)) [0..<7])"
    by (metis (no_types, lifting) filter_concat map_map comp_def map_eq_conv)
  also have "\<dots> = concat (map (\<lambda>j. if j = i then dfs ! i else []) [0..<7])"
    using blk by (intro arg_cong [where f = concat] map_cong) auto
  also have "\<dots> = dfs ! i" by (rule concat_single_block [OF assms(2)])
  finally show ?thesis .
qed

lemma balanced_labels_below_7:
  assumes "skin_df_balanced R glob skin_df = Inr b" and "r \<in> set b"
  shows "label (snd r) < 7 \<and> r \<in> set skin_df"
proof -
  from assms(1) obtain dfs where dl: "df_list R glob skin_df = Inr dfs" and b: "b = concat dfs"
    by (auto simp: skin_df_balanced_def split: sum.splits)
  from assms(2) b obtain xs where xs: "xs \<in> set dfs" "r \<in> set xs"
    by auto
  then obtain j where j: "j < length dfs" "r \<in> set (dfs ! j)"
    by (auto simp: in_set_conv_nth)
  with df_list_blocks(1) [OF dl] have j7: "j < 7" by simp
  have "set (dfs ! j) \<subseteq> set (filter (\<lambda>r. label (snd r) = j) skin_df)"
    by (rule resample_subset [OF df_list_blocks(2) [OF dl j7]])
  with j(2) j7 show ?thesis by auto
qed

lemma df_list_Inr:
  assumes "randint_ok R" and "\<forall>i<7. \<exists>r \<in> set skin_df. label (snd r) = i"
  shows "df_list R glob skin_df =
           Inr (map (\<lambda>i. map ((!) (filter (\<lambda>r. label (snd r) = i) skin_df))
                      (rs_randint R (rs_seed R 42)
                         (length (filter (\<lambda>r. label (snd r) = i) skin_df)) n_samples))
                  [0..<7])"
proof -
  have "filter (\<lambda>r. label (snd r) = i) skin_df \<noteq> []" if "i < 7" for i
    using assms(2) that by (auto simp: filter_empty_conv)
  then show ?thesis
    unfolding df_list_def
    by (intro traverse_map) (simp add: resample_Inr [OF assms(1)])
qed

lemma skin_df_balanced_length:
  assumes "randint_ok R" and "skin_df_balanced R glob skin_df = Inr b"
  shows "length b = 2800"
proof -
  from assms(2) obtain dfs where dl: "df_list R glob skin_df = Inr dfs" and b: "b = concat dfs"
    by (auto simp: skin_df_balanced_def split: sum.splits)
  have len: "length dfs = 7" by (rule df_list_blocks(1) [OF dl])
  have blk: "length (dfs ! i) = 400" if "i < 7" for i
  proof -
    let ?a = "filter (\<lambda>r. label (snd r) = i) skin_df"
    have r: "resample R glob ?a n_samples (Seed_Int 42) = Inr (dfs ! i)"
      by (rule df_list_blocks(2) [OF dl that])
    then have ne: "?a \<noteq> []" by (auto simp: resample_def)
    from r resample_Inr [OF assms(1) ne, of glob n_samples "Seed_Int 42"] assms(1) ne
    show ?thesis by (auto simp: randint_ok_def n_samples_def)
  qed
  have "dfs = map ((!) dfs) [0..<7]" using len by (metis map_nth)
  then have "length (concat dfs) = sum_list (map (\<lambda>i. length (dfs ! i)) [0..<7])"
    by (metis (no_types, lifting) length_concat map_map comp_def map_eq_conv)
  also have "\<dots> = sum_list (map (\<lambda>i. 400) [0..<7])"
    by (intro arg_cong [where f = sum_list] map_cong) (use blk in auto)
  also have "\<dots> = 2800" by (simp add: sum_list_triv)
  finally show ?thesis using b by simp
qed

lemma seven_rows_balanced:
  "\<exists>df b. add_label (read_csv seven_rows) = Inr df
      \<and> map (\<lambda>r. label (snd r)) df = [5, 4, 2, 1, 0, 6, 3]
      \<and> (\<forall>i<7. \<exists>r \<in> set df. label (snd r) = i)
      \<and> skin_df_balanced stride_rng 0 df = Inr b \<and> length b = 2800"
proof -
  obtain df where df: "add_label (read_csv seven_rows) = Inr df"
    and lab: "map (\<lambda>r. label (snd r)) df = [5, 4, 2, 1, 0, 6, 3]"
    using seven_labels by (cases "add_label (read_csv seven_rows)") (auto simp: comp_def)
  have "set (map (\<lambda>r. label (snd r)) df) = {0..<7}"
    unfolding lab by auto
  then have cover: "\<forall>i<7. \<exists>r \<in> set df. label (snd r) = i"
    by (metis (mono_tags, lifting) atLeastLessThan_iff imageE list.set_map zero_le)
  from df_list_Inr [OF stride_rng_randint_ok cover, of 0]
  obtain b where b: "skin_df_balanced stride_rng 0 df = Inr b"
    by (simp add: skin_df_balanced_def)
  from skin_df_balanced_length [OF stride_rng_randint_ok b] df lab cover b
  show ?thesis by (intro exI [of _ df] exI [of _ b] conjI)
qed

text \<open>
  Claim C3. When each of the label ids 0 to 6 has at least one row in the table, the
  balanced frame exists, has 2800 rows, 400 of them for each of the seven label ids, and
  the rows of a label id are 400 positional draws, repeats allowed, from the rows of
  that label id in the table.
\<close>

theorem balanced_counts:
  assumes "randint_ok R" and "\<forall>i<7. \<exists>r \<in> set skin_df. label (snd r) = i"
  shows "\<exists>b. skin_df_balanced R glob skin_df = Inr b
           \<and> length b = 2800
           \<and> (\<forall>i<7. length (filter (\<lambda>r. label (snd r) = i) b) = 400)
           \<and> (\<forall>i<7. \<exists>draws. length draws = 400
                  \<and> (\<forall>d \<in> set draws. d < length (filter (\<lambda>r. label (snd r) = i) skin_df))
                  \<and> filter (\<lambda>r. label (snd r) = i) b
                      = map ((!) (filter (\<lambda>r. label (snd r) = i) skin_df)) draws)"
proof -
  let ?cls = "\<lambda>i. filter (\<lambda>r. label (snd r) = i) skin_df"
  let ?draws = "\<lambda>i. rs_randint R (rs_seed R 42) (length (?cls i)) n_samples"
  let ?blk = "\<lambda>i. map ((!) (?cls i)) (?draws i)"
  let ?b = "concat (map ?blk [0..<7])"
  have ne: "?cls i \<noteq> []" if "i < 7" for i
    using assms(2) that by (auto simp: filter_empty_conv)
  have dl: "df_list R glob skin_df = Inr (map ?blk [0..<7])"
    by (rule df_list_Inr [OF assms])
  then have b: "skin_df_balanced R glob skin_df = Inr ?b"
    by (simp add: skin_df_balanced_def)
  have len: "length ?b = 2800"
    by (rule skin_df_balanced_length [OF assms(1) b])
  have dr: "length (?draws i) = 400 \<and> (\<forall>d \<in> set (?draws i). d < length (?cls i))" if "i < 7" for i
    using assms(1) ne [OF that] by (simp add: randint_ok_def n_samples_def)
  have flt: "filter (\<lambda>r. label (snd r) = i) ?b = ?blk i" if "i < 7" for i
    using balanced_label_filter [OF dl that] that by simp
  have c1: "\<forall>i<7. length (filter (\<lambda>r. label (snd r) = i) ?b) = 400"
    using flt dr by simp
  have c2: "\<forall>i<7. \<exists>draws. length draws = 400
                  \<and> (\<forall>d \<in> set draws. d < length (?cls i))
                  \<and> filter (\<lambda>r. label (snd r) = i) ?b = map ((!) (?cls i)) draws"
    using flt dr by blast
  from b len c1 c2 show ?thesis by blast
qed

theorem balanced_counts_witness:
  "\<exists>df. add_label (read_csv seven_rows) = Inr df
     \<and> map (\<lambda>r. label (snd r)) df = [5, 4, 2, 1, 0, 6, 3]
     \<and> (\<exists>b. skin_df_balanced stride_rng 0 df = Inr b \<and> length b = 2800
           \<and> length (filter (\<lambda>r. label (snd r) = 3) b) = 400)"
proof -
  from seven_rows_balanced obtain df where df: "add_label (read_csv seven_rows) = Inr df"
    and lab: "map (\<lambda>r. label (snd r)) df = [5, 4, 2, 1, 0, 6, 3]"
    and cover: "\<forall>i<7. \<exists>r \<in> set df. label (snd r) = i"
    by (elim exE conjE)
  from balanced_counts [OF stride_rng_randint_ok cover, of 0]
  obtain b where b: "skin_df_balanced stride_rng 0 df = Inr b" "length b = 2800"
    and cnt: "\<forall>i<7. length (filter (\<lambda>r. label (snd r) = i) b) = 400"
    by blast
  from cnt have "length (filter (\<lambda>r. label (snd r) = 3) b) = 400" by simp
  with df lab b show ?thesis
    by (intro exI [of _ df] conjI exI [of _ b])
qed

subsection \<open>One-hot labels\<close>

lemma one_hot_conv:
  "c < n \<Longrightarrow> (replicate n (0::real))[c := 1] = replicate c 0 @ 1 # replicate (n - Suc c) 0"
  by (simp add: upd_conv_take_nth_drop min_def)

lemma argmax_from_replicate:
  "\<not> bv < x \<Longrightarrow> argmax_from best bv i (replicate k x @ rest) = argmax_from best bv (i + k) rest"
  by (induction k arbitrary: i) auto

lemma argmax_from_replicate_end:
  "\<not> bv < x \<Longrightarrow> argmax_from best bv i (replicate k x) = best"
  using argmax_from_replicate [of bv x best i k "[]"] by simp

lemma np_argmax_one_hot:
  assumes "c < n"
  shows "np_argmax ((replicate n (0::real))[c := 1]) = Inr c"
proof (cases c)
  case 0
  then show ?thesis
    using assms by (simp add: one_hot_conv np_argmax_def argmax_from_replicate_end)
next
  case (Suc c')
  have "replicate c (0::real) @ 1 # replicate (n - Suc c) 0
      = 0 # (replicate c' 0 @ 1 # replicate (n - Suc c) 0)"
    by (simp add: Suc)
  then show ?thesis
    using assms
    by (simp add: one_hot_conv np_argmax_def argmax_from_replicate argmax_from_replicate_end Suc)
qed

lemma one_hot_props:
  assumes "c < n"
  shows "length ((replicate n (0::real))[c := 1]) = n"
    and "sum_list ((replicate n (0::real))[c := 1]) = 1"
    and "length (filter (\<lambda>v. v = 1) ((replicate n (0::real))[c := 1])) = 1"
    and "((replicate n (0::real))[c := 1]) ! c = 1"
proof -
  show "length ((replicate n (0::real))[c := 1]) = n" by simp
  show "sum_list ((replicate n (0::real))[c := 1]) = 1"
    using assms by (simp add: one_hot_conv sum_list_replicate)
  show "length (filter (\<lambda>v. v = 1) ((replicate n (0::real))[c := 1])) = 1"
    using assms by (simp add: one_hot_conv)
  show "((replicate n (0::real))[c := 1]) ! c = 1"
    using assms by simp
qed

text \<open>
  Claim C6. For the balanced frame, the one-hot rows exist, one per record; each has
  length 7, sums to 1, has exactly one entry equal to 1, that entry stands at the
  record's label id, and the arg-max of the row is the record's label id.
\<close>

theorem one_hot_labels:
  assumes "skin_df_balanced R glob skin_df = Inr b"
  shows "\<exists>Y. Y_cat b = Inr Y \<and> length Y = length b
           \<and> (\<forall>k<length b.
                 length (Y ! k) = 7
               \<and> sum_list (Y ! k) = 1
               \<and> length (filter (\<lambda>v. v = 1) (Y ! k)) = 1
               \<and> Y ! k ! label (snd (b ! k)) = 1
               \<and> np_argmax (Y ! k) = Inr (label (snd (b ! k))))"
proof -
  let ?hot = "\<lambda>c. (replicate 7 (0::real))[c := 1]"
  let ?Y = "map ?hot (map (\<lambda>r. label (snd r)) b)"
  have lt: "label (snd r) < 7" if "r \<in> set b" for r
    using balanced_labels_below_7 [OF assms that] by simp
  have lt': "c < 7" if "c \<in> set (map (\<lambda>r. label (snd r)) b)" for c
  proof -
    from that obtain r where "r \<in> set b" "c = label (snd r)" by auto
    with lt show ?thesis by simp
  qed
  have Y: "Y_cat b = Inr ?Y"
    unfolding Y_cat_def to_categorical_def by (rule traverse_map) (simp add: lt')
  have "length (?Y ! k) = 7 \<and> sum_list (?Y ! k) = 1
      \<and> length (filter (\<lambda>v. v = 1) (?Y ! k)) = 1
      \<and> ?Y ! k ! label (snd (b ! k)) = 1
      \<and> np_argmax (?Y ! k) = Inr (label (snd (b ! k)))" if "k < length b" for k
  proof -
    have c: "label (snd (b ! k)) < 7" using lt that by simp
    have "?Y ! k = ?hot (label (snd (b ! k)))" using that by simp
    with one_hot_props [OF c] np_argmax_one_hot [OF c] show ?thesis by simp
  qed
  with Y show ?thesis by (intro exI [of _ ?Y]) simp
qed

theorem one_hot_labels_witness:
  "\<exists>df b Y. add_label (read_csv seven_rows) = Inr df
     \<and> skin_df_balanced stride_rng 0 df = Inr b \<and> length b = 2800
     \<and> Y_cat b = Inr Y
     \<and> length (Y ! 2799) = 7 \<and> sum_list (Y ! 2799) = 1
     \<and> length (filter (\<lambda>v. v = 1) (Y ! 2799)) = 1
     \<and> np_argmax (Y ! 2799) = Inr (label (snd (b ! 2799)))"
proof -
  from seven_rows_balanced obtain df b where df: "add_label (read_csv seven_rows) = Inr df"
    and b: "skin_df_balanced stride_rng 0 df = Inr b" and len: "length b = 2800"
    by (elim exE conjE)
  from one_hot_labels [OF b] obtain Y where Y: "Y_cat b = Inr Y"
    and hot: "\<forall>k<length b. length (Y ! k) = 7 \<and> sum_list (Y ! k) = 1
               \<and> length (filter (\<lambda>v. v = 1) (Y ! k)) = 1
               \<and> Y ! k ! label (snd (b ! k)) = 1
               \<and> np_argmax (Y ! k) = Inr (label (snd (b ! k)))"
    by blast
  from hot len have "length (Y ! 2799) = 7 \<and> sum_list (Y ! 2799) = 1
               \<and> length (filter (\<lambda>v. v = 1) (Y ! 2799)) = 1
               \<and> np_argmax (Y ! 2799) = Inr (label (snd (b ! 2799)))"
    by simp
  with df b len Y show ?thesis
    by (intro exI [of _ df] exI [of _ b] exI [of _ Y]) simp
qed

subsection \<open>Determinism\<close>

text \<open>
  Claim C7. The balanced frame, and with it the index labels of the sampled rows, is the
  same whatever the state of the module-wide generator is when the step runs: every
  \<^verbatim>\<open>resample\<close> call seeds its own generator with 42. Two runs on the same table differ
  in nothing else, so they return the same frame.
\<close>

theorem balancer_deterministic:
  "skin_df_balanced R glob skin_df = skin_df_balanced R glob' skin_df
   \<and> map_sum id (map fst) (skin_df_balanced R glob skin_df)
       = map_sum id (map fst) (skin_df_balanced R glob' skin_df)"
  by (simp add: skin_df_balanced_def df_list_def resample_def)

text \<open>
  The seed is what makes it so: without one, \<^verbatim>\<open>resample\<close> reads the module-wide
  generator and its result follows that state.
\<close>

lemma resample_unseeded_reads_state:
  "resample stride_rng 0 [''a'', ''b''] 1 Seed_None = Inr [''a'']
   \<and> resample stride_rng 1 [''a'', ''b''] 1 Seed_None = Inr [''b'']
   \<and> resample stride_rng 0 [''a'', ''b''] 1 (Seed_Int 42) = Inr [''a'']
   \<and> resample stride_rng 1 [''a'', ''b''] 1 (Seed_Int 42) = Inr [''a'']"
  by code_simp

subsection \<open>Labels by position\<close>

lemma nth_concat_blocks:
  assumes "\<forall>xs \<in> set xss. length xs = m" and "k < length xss * m"
  shows "concat xss ! k = xss ! (k div m) ! (k mod m)"
  using assms
proof (induction xss arbitrary: k)
  case Nil
  then show ?case by simp
next
  case (Cons xs xss)
  have m: "length xs = m" using Cons.prems(1) by simp
  show ?case
  proof (cases "k < m")
    case True
    then show ?thesis by (simp add: nth_append m)
  next
    case False
    then have ge: "m \<le> k" by simp
    have pos: "0 < m" using Cons.prems(2) by (cases m) auto
    have lt: "k - m < length xss * m" using Cons.prems(2) ge by simp
    have d: "k div m = Suc ((k - m) div m)" using ge pos by (simp add: le_div_geq)
    have r: "k mod m = (k - m) mod m" using ge by (simp add: le_mod_geq)
    have "concat (xs # xss) ! k = concat xss ! (k - m)"
      using False by (simp add: nth_append m)
    also have "\<dots> = xss ! ((k - m) div m) ! ((k - m) mod m)"
      using Cons.IH [OF _ lt] Cons.prems(1) by simp
    finally show ?thesis by (simp add: d r)
  qed
qed

lemma balanced_label_by_position:
  assumes "randint_ok R" and "skin_df_balanced R glob skin_df = Inr b" and "k < 2800"
  shows "label (snd (b ! k)) = k div 400"
proof -
  from assms(2) obtain dfs where dl: "df_list R glob skin_df = Inr dfs" and b: "b = concat dfs"
    by (auto simp: skin_df_balanced_def split: sum.splits)
  have len: "length dfs = 7" by (rule df_list_blocks(1) [OF dl])
  have blk: "length (dfs ! i) = 400 \<and> (\<forall>r \<in> set (dfs ! i). label (snd r) = i)" if "i < 7" for i
  proof -
    let ?a = "filter (\<lambda>r. label (snd r) = i) skin_df"
    have r: "resample R glob ?a n_samples (Seed_Int 42) = Inr (dfs ! i)"
      by (rule df_list_blocks(2) [OF dl that])
    then have ne: "?a \<noteq> []" by (auto simp: resample_def)
    from r resample_Inr [OF assms(1) ne, of glob n_samples "Seed_Int 42"] assms(1) ne
    have "length (dfs ! i) = 400" by (auto simp: randint_ok_def n_samples_def)
    moreover have "set (dfs ! i) \<subseteq> set ?a" by (rule resample_subset [OF r])
    ultimately show ?thesis by auto
  qed
  have all: "\<forall>xs \<in> set dfs. length xs = 400"
    using blk len by (auto simp: in_set_conv_nth)
  have k: "k < length dfs * 400" using assms(3) len by simp
  have d: "k div 400 < 7" using assms(3) by (simp add: div_less_iff_less_mult)
  have mlt: "k mod 400 < length (dfs ! (k div 400))" using blk [OF d] by simp
  have "b ! k = dfs ! (k div 400) ! (k mod 400)"
    unfolding b by (rule nth_concat_blocks [OF all k])
  moreover have "dfs ! (k div 400) ! (k mod 400) \<in> set (dfs ! (k div 400))"
    using mlt by (rule nth_mem)
  ultimately show ?thesis using blk [OF d] by simp
qed


lemma Y_cat_Inr:
  assumes "skin_df_balanced R glob skin_df = Inr b"
  shows "Y_cat b = Inr (map (\<lambda>r. (replicate 7 0)[label (snd r) := 1]) b)"
proof -
  have "c < 7" if "c \<in> set (map (\<lambda>r. label (snd r)) b)" for c
  proof -
    from that obtain r where "r \<in> set b" "c = label (snd r)" by auto
    with balanced_labels_below_7 [OF assms] show ?thesis by simp
  qed
  then have "Y_cat b = Inr (map (\<lambda>c. (replicate 7 0)[c := 1]) (map (\<lambda>r. label (snd r)) b))"
    unfolding Y_cat_def to_categorical_def by (intro traverse_map) simp
  then show ?thesis by (simp add: comp_def)
qed

section \<open>The image loader\<close>

lemma image_path_fold:
  "fold (\<lambda>x m. m(key x \<mapsto> x)) files m k = None \<longleftrightarrow> m k = None \<and> k \<notin> key ` set files"
  by (induction files arbitrary: m) auto

lemma image_path_None_iff:
  "image_path files k = None \<longleftrightarrow> (\<forall>x \<in> set files. fst (splitext (basename x)) \<noteq> k)"
  unfolding image_path_def by (subst image_path_fold) auto

text \<open>
  Claim C9. A record whose image id is the file name, without extension, of none of the
  paths found gets no path; opening its image raises AttributeError, and reading the
  images returns an exception and no list of images.
\<close>

theorem missing_image_is_fatal:
  assumes "r \<in> set balanced"
    and "\<forall>x \<in> set files. fst (splitext (basename x)) \<noteq> image_id (snd r)"
  shows "Image_open disk (image_path files (image_id (snd r))) = Inl AttributeError
         \<and> (\<exists>e. read_images files disk resampler balanced = Inl e)"
proof -
  have none: "image_path files (image_id (snd r)) = None"
    using assms(2) by (simp add: image_path_None_iff)
  then have op: "Image_open disk (image_path files (image_id (snd r))) = Inl AttributeError"
    by (simp add: Image_open_def)
  have mem: "image_path files (image_id (snd r)) \<in> set (path_column files balanced)"
    using assms(1) by (auto simp: path_column_def)
  let ?step = "\<lambda>x. case Image_open disk x of
                      Inl e \<Rightarrow> Inl e
                    | Inr im \<Rightarrow> Inr (np_asarray (resize resampler im (SIZE, SIZE)))"
  have "?step (image_path files (image_id (snd r))) = Inl AttributeError"
    using op by simp
  from traverse_Inl [of _ _ ?step, OF mem this]
  have "\<exists>e. read_images files disk resampler balanced = Inl e"
    by (simp add: read_images_def image_column_def)
  with op show ?thesis by simp
qed

theorem missing_image_is_fatal_witness:
  "image_path seven_files ''ISIC_0024306'' = None
   \<and> (\<exists>e. read_images seven_files (\<lambda>p. Inr colour_jpeg) nearest
          (one_record @ [(9, \<lparr>image_id = ''ISIC_0024306'', dx = ''nv'', sex = ''male'',
                              age = None, localization = ''trunk'', label = 5\<rparr>)]) = Inl e)"
proof -
  let ?r = "(9::nat, \<lparr>image_id = ''ISIC_0024306'', dx = ''nv'', sex = ''male'',
                              age = None, localization = ''trunk'', label = 5\<rparr>)"
  have keys: "map (\<lambda>x. fst (splitext (basename x))) seven_files
      = [''ISIC_nv'', ''ISIC_mel'', ''ISIC_bkl'', ''ISIC_bcc'', ''ISIC_akiec'', ''ISIC_vasc'', ''ISIC_df'']"
    by code_simp
  have "\<forall>k \<in> set (map (\<lambda>x. fst (splitext (basename x))) seven_files). k \<noteq> ''ISIC_0024306''"
    unfolding keys by simp
  then have miss: "\<forall>x \<in> set seven_files. fst (splitext (basename x)) \<noteq> image_id (snd ?r)"
    by simp
  have mem: "?r \<in> set (one_record @ [?r])" by simp
  from missing_image_is_fatal [OF mem miss, of "\<lambda>p. Inr colour_jpeg" nearest] miss
  show ?thesis by (simp add: image_path_None_iff)
qed

lemma shape_map_ndarray [simp]: "shape (map_ndarray f a) = shape a"
  by (cases a) (auto split: list.splits)

lemma elements_map_ndarray [simp]: "elements (map_ndarray f a) = map f (elements a)"
  by (cases a) (simp_all add: map_concat)

lemma case_map_upt:
  "0 < h \<Longrightarrow> (case map f [0..<h] of [] \<Rightarrow> z | r # _ \<Rightarrow> g r) = g (f 0)"
  by (simp add: upt_conv_Cons)

lemma shape_resized:
  assumes "0 < s"
  shows "shape (np_asarray (resize resampler im (s, s)))
           = (if bands (im_mode im) = 1 then [s, s] else [s, s, bands (im_mode im)])"
proof -
  have b: "0 < bands (im_mode im)" by (cases "im_mode im") simp_all
  show ?thesis
    using assms b by (simp add: np_asarray_def resize_def case_map_upt)
qed

lemma unit_interval_255:
  "0 \<le> (x::real) \<Longrightarrow> x \<le> 255 \<Longrightarrow> 0 \<le> x / 255 \<and> x / 255 \<le> 1"
  by simp

lemma div255_range: "0 \<le> div255 p \<and> div255 p \<le> 1"
proof -
  have "unat p < 2 ^ 8" using unsigned_less [of p, where ?'a = nat] by simp
  then have "unat p \<le> 255" by simp
  then have "real (unat p) \<le> real (255::nat)" by (simp only: of_nat_le_iff)
  then have hi: "real (unat p) \<le> 255" by (simp only: of_nat_numeral)
  have lo: "0 \<le> real (unat p)" by (simp only: of_nat_0_le_iff)
  show ?thesis unfolding div255_def by (rule unit_interval_255 [OF lo hi])
qed

lemma prepare_X_Inr:
  "prepare_X images = Inr X \<Longrightarrow> X = map (map_ndarray div255) images"
  by (auto simp: prepare_X_def split: if_splits)

text \<open>
  Claim C5, as the script has it. When the array \<open>X\<close> of line 74 exists, it has one
  tensor per record, every value of every tensor lies in [0, 1], and the tensor of a
  record is 32 by 32 by the number of bands of its decoded file: 32 by 32 by 3 for a
  colour (RGB) file, 32 by 32 with no third axis for a single-band file.
\<close>

theorem image_tensor_shape_and_range:
  assumes "X_array files disk resampler balanced = Inr X"
  shows "length X = length balanced
     \<and> (\<forall>k<length balanced. \<exists>p im.
            image_path files (image_id (snd (balanced ! k))) = Some p \<and> disk p = Inr im
          \<and> shape (X ! k) = (if bands (im_mode im) = 1 then [32, 32]
                               else [32, 32, bands (im_mode im)])
          \<and> (im_mode im = Mode_RGB \<longrightarrow> shape (X ! k) = [32, 32, 3]))
     \<and> (\<forall>t \<in> set X. \<forall>v \<in> set (elements t). 0 \<le> v \<and> v \<le> 1)"
proof -
  let ?step = "\<lambda>x. case Image_open disk x of
                      Inl e \<Rightarrow> Inl e
                    | Inr im \<Rightarrow> Inr (np_asarray (resize resampler im (SIZE, SIZE)))"
  let ?paths = "path_column files balanced"
  from assms obtain images where im: "traverse ?step ?paths = Inr images"
    and pX: "prepare_X images = Inr X"
    by (auto simp: X_array_def read_images_def image_column_def split: sum.splits)
  have X: "X = map (map_ndarray div255) images" by (rule prepare_X_Inr [OF pX])
  have len_im: "length images = length balanced"
    using traverse_Inr_length [OF im] by (simp add: path_column_def)
  have len: "length X = length balanced" using X len_im by simp
  have shp: "\<exists>p im. image_path files (image_id (snd (balanced ! k))) = Some p \<and> disk p = Inr im
          \<and> shape (X ! k) = (if bands (im_mode im) = 1 then [32, 32]
                               else [32, 32, bands (im_mode im)])
          \<and> (im_mode im = Mode_RGB \<longrightarrow> shape (X ! k) = [32, 32, 3])"
    if k: "k < length balanced" for k
  proof -
    have pk: "?paths ! k = image_path files (image_id (snd (balanced ! k)))"
      using k by (simp add: path_column_def)
    have "?step (?paths ! k) = Inr (images ! k)"
      using traverse_Inr_nth [OF im, of k] k by (simp add: path_column_def)
    then obtain p im where p: "?paths ! k = Some p" and d: "disk p = Inr im"
      and ik: "images ! k = np_asarray (resize resampler im (SIZE, SIZE))"
      by (auto simp: Image_open_def split: sum.splits option.splits)
    have "shape (X ! k) = shape (images ! k)" using X k len_im by simp
    also have "\<dots> = (if bands (im_mode im) = 1 then [32, 32] else [32, 32, bands (im_mode im)])"
      unfolding ik using shape_resized [of SIZE resampler im] by (simp add: SIZE_def)
    finally have s: "shape (X ! k) = (if bands (im_mode im) = 1 then [32, 32]
                               else [32, 32, bands (im_mode im)])" .
    then have "im_mode im = Mode_RGB \<longrightarrow> shape (X ! k) = [32, 32, 3]" by simp
    with p d s pk show ?thesis by auto
  qed
  have rng: "\<forall>t \<in> set X. \<forall>v \<in> set (elements t). 0 \<le> v \<and> v \<le> 1"
    using div255_range by (auto simp: X)
  from len shp rng show ?thesis by blast
qed

lemma one_record_path:
  "path_column seven_files one_record = [Some ''data/HAM10000/part_1/ISIC_akiec.jpg'']"
  by code_simp

lemma X_array_one_record:
  "X_array seven_files (\<lambda>p. Inr im) resampler one_record
     = Inr [map_ndarray div255 (np_asarray (resize resampler im (SIZE, SIZE)))]"
  by (simp add: X_array_def read_images_def image_column_def one_record_path Image_open_def
      prepare_X_def)

theorem grey_image_tensor_counterexample:
  "map_sum id (map shape) (X_array seven_files (\<lambda>p. Inr grey_jpeg) nearest one_record)
     = Inr [[32, 32]]"
  using shape_resized [of SIZE nearest grey_jpeg]
  by (simp add: X_array_one_record SIZE_def grey_jpeg_def)

theorem image_tensor_shape_and_range_witness:
  "\<exists>X. X_array seven_files (\<lambda>p. Inr colour_jpeg) nearest one_record = Inr X
     \<and> length X = 1 \<and> shape (X ! 0) = [32, 32, 3]
     \<and> list_all (\<lambda>v. 0 \<le> v \<and> v \<le> 1) (elements (X ! 0))"
proof -
  obtain X where X: "X_array seven_files (\<lambda>p. Inr colour_jpeg) nearest one_record = Inr X"
    using X_array_one_record by blast
  from image_tensor_shape_and_range [OF X]
  have len: "length X = length one_record"
    and s: "\<forall>k<length one_record. \<exists>p im.
            image_path seven_files (image_id (snd (one_record ! k))) = Some p
          \<and> (Inr colour_jpeg :: py_error + pil_image) = Inr im
          \<and> shape (X ! k) = (if bands (im_mode im) = 1 then [32, 32]
                               else [32, 32, bands (im_mode im)])
          \<and> (im_mode im = Mode_RGB \<longrightarrow> shape (X ! k) = [32, 32, 3])"
    and r: "\<forall>t \<in> set X. \<forall>v \<in> set (elements t). 0 \<le> v \<and> v \<le> 1"
    by blast+
  have l1: "length X = 1" using len by (simp add: one_record_def)
  from s have "\<exists>p im. (Inr colour_jpeg :: py_error + pil_image) = Inr im
          \<and> (im_mode im = Mode_RGB \<longrightarrow> shape (X ! 0) = [32, 32, 3])"
    by (simp add: one_record_def)
  then have shp: "shape (X ! 0) = [32, 32, 3]"
    by (auto simp: colour_jpeg_def)
  have "X ! 0 \<in> set X" using l1 by simp
  with r have "list_all (\<lambda>v. 0 \<le> v \<and> v \<le> 1) (elements (X ! 0))"
    by (simp add: list_all_iff)
  with X l1 shp show ?thesis by blast
qed

section \<open>The train and test split\<close>

lemma permutation_props:
  assumes "permutation_ok R"
  shows "length (rs_permutation R g n) = n"
    and "set (rs_permutation R g n) = {0..<n}"
    and "distinct (rs_permutation R g n)"
proof -
  have m: "mset (rs_permutation R g n) = mset [0..<n]"
    using assms by (simp only: permutation_ok_def)
  show "length (rs_permutation R g n) = n"
    using mset_eq_length [OF m] by simp
  show "set (rs_permutation R g n) = {0..<n}"
    using mset_eq_setD [OF m] by simp
  show "distinct (rs_permutation R g n)"
    using mset_eq_imp_distinct_iff [OF m] by simp
qed

lemma validate_shuffle_split_sum:
  "validate_shuffle_split n t = Inr (n_train, n_test) \<Longrightarrow>
     n_train + n_test = n \<and> 0 < n_train \<and> n_test = nat \<lceil>t * of_nat n\<rceil>"
  by (auto simp: validate_shuffle_split_def Let_def split: if_splits)

lemma validate_quarter:
  assumes "2 \<le> n"
  shows "validate_shuffle_split n (1 / 4) = Inr (n - nat \<lceil>(1 / 4 :: rat) * of_nat n\<rceil>, nat \<lceil>(1 / 4 :: rat) * of_nat n\<rceil>)"
proof -
  have "(1 / 4 :: rat) * of_nat n \<le> of_int (int n - 1)"
    using assms by simp
  then have "\<lceil>(1 / 4 :: rat) * of_nat n\<rceil> \<le> int n - 1"
    by (simp only: ceiling_le_iff)
  then have "nat \<lceil>(1 / 4 :: rat) * of_nat n\<rceil> < n" using assms by linarith
  then show ?thesis by (simp add: validate_shuffle_split_def Let_def)
qed

lemma zip_nths:
  "zip (map ((!) X) ix) (map ((!) Y) ix) = map (\<lambda>k. (X ! k, Y ! k)) ix"
  by (induction ix) auto

lemma train_test_split_Inr:
  assumes ok: "permutation_ok R" and len: "length X = length Y"
    and v: "validate_shuffle_split (length X) test_size = Inr (n_train, n_test)"
  shows "train_test_split R glob X Y test_size rs =
           Inr (map ((!) X) (drop n_test (rs_permutation R (check_random_state R glob rs) (length X))),
                map ((!) X) (take n_test (rs_permutation R (check_random_state R glob rs) (length X))),
                map ((!) Y) (drop n_test (rs_permutation R (check_random_state R glob rs) (length X))),
                map ((!) Y) (take n_test (rs_permutation R (check_random_state R glob rs) (length X))))"
    and "shuffle_split R glob (length X) n_train n_test rs =
           (drop n_test (rs_permutation R (check_random_state R glob rs) (length X)),
            take n_test (rs_permutation R (check_random_state R glob rs) (length X)))"
proof -
  let ?p = "rs_permutation R (check_random_state R glob rs) (length X)"
  note pp = permutation_props [OF ok, of "check_random_state R glob rs" "length X"]
  from validate_shuffle_split_sum [OF v] have s: "n_train + n_test = length X" by simp
  have "length (drop n_test ?p) = n_train" using pp(1) s by simp
  then have tr: "take n_train (drop n_test ?p) = drop n_test ?p" by simp
  show ss: "shuffle_split R glob (length X) n_train n_test rs = (drop n_test ?p, take n_test ?p)"
    by (simp add: shuffle_split_def Let_def tr)
  have inX: "\<forall>i \<in> set ix. i < length X" if "set ix \<subseteq> set ?p" for ix
    using that pp(2) by auto
  have d: "set (drop n_test ?p) \<subseteq> set ?p" by (rule set_drop_subset)
  have t: "set (take n_test ?p) \<subseteq> set ?p" by (rule set_take_subset)
  have iX: "safe_indexing X ix = Inr (map ((!) X) ix)" if "set ix \<subseteq> set ?p" for ix
    by (rule safe_indexing_Inr [OF inX [OF that]])
  have iY: "safe_indexing Y ix = Inr (map ((!) Y) ix)" if "set ix \<subseteq> set ?p" for ix
    by (rule safe_indexing_Inr) (use inX [OF that] len in simp)
  show "train_test_split R glob X Y test_size rs =
           Inr (map ((!) X) (drop n_test ?p), map ((!) X) (take n_test ?p),
                map ((!) Y) (drop n_test ?p), map ((!) Y) (take n_test ?p))"
    by (simp add: train_test_split_def len [symmetric] v ss iX [OF d] iX [OF t] iY [OF d] iY [OF t])
qed

text \<open>
  Claim C2, by row position. For two arrays of the same length, at least two rows, and
  the script's test size and seed, the split exists; its train rows and its test rows are
  the rows of \<open>X\<close> and \<open>Y\<close> at two lists of positions that have no position in
  common, hold no position twice and together hold every position of the arrays: every
  row lies in exactly one part. The image/label pairs of the two parts together are,
  counted with repetitions, the image/label pairs of the arrays.
\<close>

theorem train_test_partition:
  assumes "permutation_ok R" and "length X = length Y" and "2 \<le> length X"
  shows "\<exists>train test.
           train_test_split R glob X Y (1 / 4) (Seed_Int 42)
             = Inr (map ((!) X) train, map ((!) X) test, map ((!) Y) train, map ((!) Y) test)
         \<and> set train \<inter> set test = {}
         \<and> set train \<union> set test = {0..<length X}
         \<and> distinct (train @ test)
         \<and> mset (zip (map ((!) X) train) (map ((!) Y) train))
             + mset (zip (map ((!) X) test) (map ((!) Y) test)) = mset (zip X Y)"
proof -
  let ?p = "rs_permutation R (check_random_state R glob (Seed_Int 42)) (length X)"
  let ?k = "nat \<lceil>(1 / 4 :: rat) * of_nat (length X)\<rceil>"
  let ?train = "drop ?k ?p" and ?test = "take ?k ?p"
  note pp = permutation_props [OF assms(1), of "check_random_state R glob (Seed_Int 42)" "length X"]
  have v: "validate_shuffle_split (length X) (1 / 4) = Inr (length X - ?k, ?k)"
    by (rule validate_quarter [OF assms(3)])
  have split: "train_test_split R glob X Y (1 / 4) (Seed_Int 42)
             = Inr (map ((!) X) ?train, map ((!) X) ?test, map ((!) Y) ?train, map ((!) Y) ?test)"
    by (rule train_test_split_Inr(1) [OF assms(1,2) v])
  have app: "?test @ ?train = ?p" by simp
  have dist: "distinct (?test @ ?train)" unfolding app by (rule pp(3))
  then have d: "distinct ?test \<and> distinct ?train \<and> set ?test \<inter> set ?train = {}"
    by (simp only: distinct_append)
  then have d1: "set ?train \<inter> set ?test = {}" by (simp only: Int_commute)
  have d2: "distinct (?train @ ?test)" using d d1 by (simp only: distinct_append simp_thms)
  have "set ?test \<union> set ?train = set ?p" by (metis app set_append)
  then have cov: "set ?train \<union> set ?test = {0..<length X}" using pp(2) by auto
  have "mset (zip (map ((!) X) ?train) (map ((!) Y) ?train))
             + mset (zip (map ((!) X) ?test) (map ((!) Y) ?test))
      = mset (map (\<lambda>k. (X ! k, Y ! k)) (?test @ ?train))"
    by (simp only: zip_nths map_append mset_append add.commute)
  also have "\<dots> = image_mset (\<lambda>k. (X ! k, Y ! k)) (mset ?p)"
    by (simp only: app mset_map)
  also have "mset ?p = mset [0..<length X]"
    using assms(1) by (simp only: permutation_ok_def)
  also have "image_mset (\<lambda>k. (X ! k, Y ! k)) (mset [0..<length X])
      = mset (map (\<lambda>k. (X ! k, Y ! k)) [0..<length X])"
    by (simp only: mset_map)
  also have "map (\<lambda>k. (X ! k, Y ! k)) [0..<length X] = zip X Y"
    using assms(2) by (intro nth_equalityI) auto
  finally have ms: "mset (zip (map ((!) X) ?train) (map ((!) Y) ?train))
             + mset (zip (map ((!) X) ?test) (map ((!) Y) ?test)) = mset (zip X Y)" .
  from split d1 cov d2 ms show ?thesis by blast
qed

theorem train_test_partition_witness:
  "\<exists>train test.
      train_test_split stride_rng 0 [''a'', ''b'', ''c'', ''d''] [0, 1, 2, 3 :: nat] (1 / 4) (Seed_Int 42)
        = Inr (map ((!) [''a'', ''b'', ''c'', ''d'']) train, map ((!) [''a'', ''b'', ''c'', ''d'']) test,
               map ((!) [0, 1, 2, 3 :: nat]) train, map ((!) [0, 1, 2, 3 :: nat]) test)
    \<and> set train \<inter> set test = {}
    \<and> set train \<union> set test = {0..<length [''a'', ''b'', ''c'', ''d'']}
    \<and> distinct (train @ test)
    \<and> mset (zip (map ((!) [''a'', ''b'', ''c'', ''d'']) train) (map ((!) [0, 1, 2, 3 :: nat]) train))
        + mset (zip (map ((!) [''a'', ''b'', ''c'', ''d'']) test) (map ((!) [0, 1, 2, 3 :: nat]) test))
        = mset (zip [''a'', ''b'', ''c'', ''d''] [0, 1, 2, 3 :: nat])"
proof -
  have l: "length [''a'', ''b'', ''c'', ''d''] = length [0, 1, 2, 3 :: nat]" by simp
  have n: "2 \<le> length [''a'', ''b'', ''c'', ''d'']" by simp
  from train_test_partition [OF stride_rng_permutation_ok l n, of 0]
  show ?thesis .
qed

text \<open>
  Claim C10. Two arrays of 2800 rows are split, with the script's test size and seed,
  into a test part of 700 rows and a train part of 2100 rows.
\<close>

theorem split_sizes_2800:
  assumes "permutation_ok R" and "length X = 2800" and "length Y = 2800"
  shows "\<exists>x_train x_test y_train y_test.
           train_test_split R glob X Y (1 / 4) (Seed_Int 42) = Inr (x_train, x_test, y_train, y_test)
         \<and> length x_test = 700 \<and> length y_test = 700
         \<and> length x_train = 2100 \<and> length y_train = 2100"
proof -
  let ?p = "rs_permutation R (check_random_state R glob (Seed_Int 42)) (length X)"
  have v: "validate_shuffle_split (length X) (1 / 4) = Inr (2100, 700)"
    by (simp add: assms(2) validate_shuffle_split_def Let_def)
  have len: "length X = length Y" using assms by simp
  have lp: "length ?p = 2800"
    using permutation_props(1) [OF assms(1), of "check_random_state R glob (Seed_Int 42)" "length X"]
      assms(2) by simp
  from train_test_split_Inr(1) [OF assms(1) len v, of glob "Seed_Int 42"] lp
  show ?thesis by simp
qed

theorem split_sizes_2800_witness:
  "\<exists>x_train x_test y_train y_test.
      train_test_split stride_rng 0 [0..<2800] (replicate 2800 True) (1 / 4) (Seed_Int 42)
        = Inr (x_train, x_test, y_train, y_test)
    \<and> length x_test = 700 \<and> length y_test = 700
    \<and> length x_train = 2100 \<and> length y_train = 2100"
proof -
  have x: "length [0..<2800] = 2800" by simp
  have y: "length (replicate 2800 True) = 2800" by simp
  from split_sizes_2800 [OF stride_rng_permutation_ok x y, of 0] show ?thesis .
qed

subsection \<open>Repeated records\<close>

text \<open>
  The two parts are kept apart by position, not by content: a frame drawn with
  replacement repeats rows, and equal rows can land on both sides. With all rows equal
  they do, whatever the shuffle.
\<close>

lemma repeated_rows_on_both_sides:
  assumes "permutation_ok R" and "2 \<le> n"
  shows "\<exists>x_train x_test y_train y_test.
           train_test_split R glob (replicate n x) (replicate n y) (1 / 4) (Seed_Int 42)
             = Inr (x_train, x_test, y_train, y_test)
         \<and> x \<in> set x_train \<and> x \<in> set x_test"
proof -
  let ?X = "replicate n x" and ?Y = "replicate n y"
  let ?p = "rs_permutation R (check_random_state R glob (Seed_Int 42)) n"
  let ?k = "nat \<lceil>(1 / 4 :: rat) * of_nat n\<rceil>"
  note pp = permutation_props [OF assms(1), of "check_random_state R glob (Seed_Int 42)" n]
  have v: "validate_shuffle_split (length ?X) (1 / 4) = Inr (n - ?k, ?k)"
    using validate_quarter [OF assms(2)] by simp
  have k: "0 < ?k" "?k < n"
  proof -
    have "0 < (1 / 4 :: rat) * of_nat n" using assms(2) by simp
    then show "0 < ?k" by simp
    from validate_shuffle_split_sum [OF v] show "?k < n" by simp
  qed
  have split: "train_test_split R glob ?X ?Y (1 / 4) (Seed_Int 42)
      = Inr (map ((!) ?X) (drop ?k ?p), map ((!) ?X) (take ?k ?p),
             map ((!) ?Y) (drop ?k ?p), map ((!) ?Y) (take ?k ?p))"
    using train_test_split_Inr(1) [of R ?X ?Y "1 / 4" "n - ?k" ?k glob "Seed_Int 42", OF assms(1) _ v]
    by simp
  have in_range: "\<forall>i \<in> set ?p. i < n" using pp(2) by simp
  have all_x: "map ((!) ?X) ix = replicate (length ix) x" if "set ix \<subseteq> set ?p" for ix
    using that in_range by (intro replicate_eqI) auto
  have "map ((!) ?X) (drop ?k ?p) = replicate (n - ?k) x"
    using all_x [OF set_drop_subset] pp(1) by simp
  moreover have "map ((!) ?X) (take ?k ?p) = replicate ?k x"
    using all_x [OF set_take_subset] pp(1) k by (simp add: min_def)
  ultimately show ?thesis using split k by auto
qed

lemma resample_singleton:
  assumes "randint_ok R" and "length a = 1"
  shows "resample R glob a k rs = Inr (replicate k (a ! 0))"
proof -
  let ?d = "rs_randint R (check_random_state R glob rs) (length a) k"
  have ne: "a \<noteq> []" using assms(2) by auto
  have "0 < length a" using assms(2) by simp
  with assms(1) have d: "length ?d = k \<and> (\<forall>i \<in> set ?d. i < length a)"
    unfolding randint_ok_def by blast
  have "map ((!) a) ?d = replicate k (a ! 0)"
    using d assms(2) by (intro replicate_eqI) auto
  with resample_Inr [OF assms(1) ne, of glob k rs] show ?thesis by simp
qed

lemma seven_rows_frame:
  "add_label (read_csv seven_rows) =
     Inr (map (\<lambda>(i, c, l). (i, \<lparr>image_id = ''ISIC_'' @ c, dx = c, sex = ''male'', age = Some 50,
                                   localization = ''back'', label = l\<rparr>))
            [(0, ''nv'', 5), (1, ''mel'', 4), (2, ''bkl'', 2), (3, ''bcc'', 1),
             (4, ''akiec'', 0), (5, ''vasc'', 6), (6, ''df'', 3)])"
  by code_simp

lemma length_concat_replicate:
  "length (concat (map (\<lambda>i. replicate m (f i)) [0..<n])) = n * m"
  by (induction n) simp_all

lemma nth_concat_replicate:
  "k < n * m \<Longrightarrow> concat (map (\<lambda>i. replicate m (f i)) [0..<n]) ! k = f (k div m)"
proof (induction n)
  case 0
  then show ?case by simp
next
  case (Suc n)
  have len: "length (concat (map (\<lambda>i. replicate m (f i)) [0..<n])) = n * m"
    by (rule length_concat_replicate)
  show ?case
  proof (cases "k < n * m")
    case True
    with Suc.IH len show ?thesis by (simp add: nth_append)
  next
    case False
    then have ge: "n * m \<le> k" by simp
    from Suc.prems have lt: "k < n * m + m" by (simp add: add.commute)
    have m: "0 < m" using Suc.prems by (cases m) auto
    have "k div m = n"
      using ge lt m by (metis div_nat_eqI mult.commute mult_Suc_right add.commute)
    with False len ge lt show ?thesis by (simp add: nth_append)
  qed
qed

lemma seven_rows_balanced_blocks:
  assumes "randint_ok R"
  shows "balanced_from_csv R glob seven_rows
           = Inr (concat (map (\<lambda>i. replicate 400 (seven_by_label i)) [0..<7]))"
proof -
  let ?df = "map (\<lambda>(i, c, l). (i, \<lparr>image_id = ''ISIC_'' @ c, dx = c, sex = ''male'', age = Some 50,
                                   localization = ''back'', label = l\<rparr>))
            [(0::nat, ''nv'', 5::nat), (1, ''mel'', 4), (2, ''bkl'', 2), (3, ''bcc'', 1),
             (4, ''akiec'', 0), (5, ''vasc'', 6), (6, ''df'', 3)]"
  have cls: "filter (\<lambda>r. label (snd r) = i) ?df = [seven_by_label i]" if "i \<in> set [0..<7]" for i
  proof -
    from that have "i = 0 \<or> i = 1 \<or> i = 2 \<or> i = 3 \<or> i = 4 \<or> i = 5 \<or> i = 6" by auto
    then show ?thesis by (elim disjE) (simp_all add: seven_by_label_def)
  qed
  have "df_list R glob ?df = Inr (map (\<lambda>i. replicate 400 (seven_by_label i)) [0..<7])"
    unfolding df_list_def
  proof (rule traverse_map)
    fix i assume i: "i \<in> set [0..<7]"
    show "resample R glob (filter (\<lambda>r. label (snd r) = i) ?df) n_samples (Seed_Int 42)
        = Inr (replicate 400 (seven_by_label i))"
      unfolding cls [OF i] using resample_singleton [OF assms, of "[seven_by_label i]" glob n_samples]
      by (simp add: n_samples_def)
  qed
  then show ?thesis
    by (simp add: balanced_from_csv_def seven_rows_frame skin_df_balanced_def)
qed

lemma div_eq_block:
  assumes "0 < m"
  shows "((k::nat) div m = c) = (m * c \<le> k \<and> k < m * c + m)"
proof
  assume e: "k div m = c"
  have "m * c + k mod m = k" unfolding e [symmetric] by (rule mult_div_mod_eq)
  moreover have "k mod m < m" using assms by (rule mod_less_divisor)
  ultimately show "m * c \<le> k \<and> k < m * c + m" by linarith
next
  assume a: "m * c \<le> k \<and> k < m * c + m"
  then have "m * c \<le> k" by (rule conjunct1)
  moreover from a have "k < m * Suc c" by (simp only: mult_Suc_right add.commute)
  ultimately show "k div m = c" by (rule div_nat_eqI)
qed

lemma block_of_400:
  "{k::nat. k div 400 = c} = {400 * c..<400 * c + 400}"
proof -
  have "(k div 400 = c) = (400 * c \<le> k \<and> k < 400 * c + 400)" for k :: nat
    by (rule div_eq_block) simp
  then show ?thesis by (simp only: set_eq_iff mem_Collect_eq atLeastLessThan_iff simp_thms)
qed

lemma card_block_400: "card {k::nat. k div 400 = c} = 400"
  unfolding block_of_400 by (simp only: card_atLeastLessThan add_diff_cancel_left')

lemma below_2800: "(k::nat) < 2800 \<Longrightarrow> k div 400 < 7"
  by (simp only: div_less_iff_less_mult)

lemma block_below_2800:
  assumes "c < 7" and "(k::nat) div 400 = c"
  shows "k < 2800"
proof -
  have "k < 400 * c + 400" using assms(2) div_eq_block [of 400 k c] by simp
  with assms(1) show ?thesis by linarith
qed

lemma split_cuts_a_block:
  assumes "T \<subseteq> {0..<2800::nat}" and "card T = 700"
  shows "\<exists>i \<in> {0..<2800} - T. \<exists>j \<in> T. i div 400 = j div 400"
proof (rule ccontr)
  assume no: "\<not> (\<exists>i \<in> {0..<2800} - T. \<exists>j \<in> T. i div 400 = j div 400)"
  have fin: "finite T" using assms(1) finite_subset by blast
  define A where "A = (\<lambda>c. {k \<in> T. k div 400 = c})"
  have A_sub: "A c \<subseteq> {k. k div 400 = c}" for c by (auto simp: A_def)
  have whole: "A c = {} \<or> A c = {k. k div 400 = c}" if c: "c < 7" for c
  proof (cases "A c = {}")
    case True
    then show ?thesis by simp
  next
    case False
    then obtain j where j: "j \<in> T" "j div 400 = c" unfolding A_def by blast
    have "k \<in> T" if k: "k div 400 = c" for k
    proof (rule ccontr)
      assume "k \<notin> T"
      moreover have "k < 2800" by (rule block_below_2800 [OF c k])
      ultimately have kT: "k \<in> {0..<2800} - T" by simp
      have "k div 400 = j div 400" using k j(2) by simp
      with kT j(1) have "\<exists>i \<in> {0..<2800} - T. \<exists>j \<in> T. i div 400 = j div 400"
        by (intro bexI [of _ k] bexI [of _ j])
      with no show False by (rule notE)
    qed
    then have "{k. k div 400 = c} \<subseteq> A c" unfolding A_def by blast
    with A_sub [of c] show ?thesis by blast
  qed
  have dv: "400 dvd card (A c)" if "c \<in> {0..<7}" for c
  proof -
    from that have "c < 7" by simp
    from whole [OF this] show ?thesis
    proof
      assume "A c = {}"
      then show ?thesis by simp
    next
      assume "A c = {k. k div 400 = c}"
      then show ?thesis by (simp only: card_block_400 dvd_refl)
    qed
  qed
  have "k div 400 \<in> {0..<7}" if "k \<in> T" for k
  proof -
    from that assms(1) have "k < 2800" by auto
    from below_2800 [OF this] show ?thesis by simp
  qed
  then have "T = (\<Union>c \<in> {0..<7}. A c)" unfolding A_def by blast
  then have "card T = card (\<Union>c \<in> {0..<7}. A c)" by (rule arg_cong)
  also have "\<dots> = (\<Sum>c \<in> {0..<7}. card (A c))"
  proof (rule card_UN_disjoint)
    show "finite {0..<7::nat}" by simp
    show "\<forall>i \<in> {0..<7}. finite (A i)" using fin by (simp add: A_def)
    show "\<forall>i \<in> {0..<7}. \<forall>j \<in> {0..<7}. i \<noteq> j \<longrightarrow> A i \<inter> A j = {}"
      unfolding A_def by blast
  qed
  finally have "card T = (\<Sum>c \<in> {0..<7}. card (A c))" .
  moreover have "400 dvd (\<Sum>c \<in> {0..<7}. card (A c))" by (rule dvd_sum) (rule dv)
  ultimately have "400 dvd card T" by (simp only:)
  then have "(400::nat) dvd 700" by (simp only: assms(2))
  then show False by simp
qed


lemma take_rev_upt: "k \<le> n \<Longrightarrow> take k (rev [0..<n]) = rev [n - k..<n]"
  by (simp add: take_rev)

lemma drop_rev_upt: "drop k (rev [0..<n]) = rev [0..<n - k]"
  by (simp add: drop_rev)

lemma seven_blocks_length:
  "length (concat (map (\<lambda>i. replicate 400 (seven_by_label i)) [0..<7])) = 2800"
  by (simp only: length_concat_replicate)

lemma seven_blocks_nth:
  assumes "k < 2800"
  shows "concat (map (\<lambda>i. replicate 400 (seven_by_label i)) [0..<7]) ! k = seven_by_label (k div 400)"
proof -
  have "k < 7 * 400" using assms by simp
  then show ?thesis by (rule nth_concat_replicate)
qed

text \<open>
  On that table a record lands on both sides with every generator: the test part has 700
  positions, the positions of a record form a block of 400, and 700 is no multiple of 400.
\<close>

lemma seven_rows_record_on_both_sides:
  assumes "randint_ok R" and "permutation_ok R"
  shows "\<exists>b train test. balanced_from_csv R glob seven_rows = Inr b \<and> length b = 2800
     \<and> shuffle_split R glob' (length b) 2100 700 (Seed_Int 42) = (train, test)
     \<and> (\<exists>i \<in> set train. \<exists>j \<in> set test. b ! i = b ! j)"
proof -
  let ?b = "concat (map (\<lambda>i. replicate 400 (seven_by_label i)) [0..<7])"
  let ?p = "rs_permutation R (rs_seed R 42) 2800"
  note pp = permutation_props [OF assms(2), of "rs_seed R 42" 2800]
  have b: "balanced_from_csv R glob seven_rows = Inr ?b"
    by (rule seven_rows_balanced_blocks [OF assms(1)])
  have len: "length ?b = 2800" by (rule seven_blocks_length)
  note nth = seven_blocks_nth
  have lp: "length ?p = 2800" by (rule pp(1))
  have "length (drop 700 ?p) \<le> 2100" by (simp only: length_drop lp)
  then have tr: "take 2100 (drop 700 ?p) = drop 700 ?p" by (rule take_all)
  have ss: "shuffle_split R glob' (length ?b) 2100 700 (Seed_Int 42) = (drop 700 ?p, take 700 ?p)"
    unfolding len by (simp add: shuffle_split_def Let_def tr)
  have app: "take 700 ?p @ drop 700 ?p = ?p" by simp
  have sub: "set (take 700 ?p) \<subseteq> {0..<2800}"
    using set_take_subset [of 700 ?p] pp(2) by simp
  have "distinct (take 700 ?p)" using pp(3) by (rule distinct_take)
  then have "card (set (take 700 ?p)) = length (take 700 ?p)" by (rule distinct_card)
  then have card: "card (set (take 700 ?p)) = 700" using pp(1) by simp
  from split_cuts_a_block [OF sub card]
  obtain i j where i: "i \<in> {0..<2800} - set (take 700 ?p)" and j: "j \<in> set (take 700 ?p)"
    and ij: "i div 400 = j div 400" by blast
  have "i \<in> set ?p" using i pp(2) by simp
  then have "i \<in> set (take 700 ?p) \<union> set (drop 700 ?p)" by (metis app set_append)
  with i have itrain: "i \<in> set (drop 700 ?p)" by simp
  have "j < 2800" using j sub by auto
  moreover have "i < 2800" using i by simp
  ultimately have "?b ! i = ?b ! j" using ij by (simp only: nth)
  with itrain j have "\<exists>i \<in> set (drop 700 ?p). \<exists>j \<in> set (take 700 ?p). ?b ! i = ?b ! j"
    by blast
  with b len ss show ?thesis
    by (intro exI [of _ ?b] exI [of _ "drop 700 ?p"] exI [of _ "take 700 ?p"] conjI)
qed

text \<open>
  Claim C2, as first stated, has no record in both parts. On the table with one lesion
  per class the balanced frame holds the record \<^verbatim>\<open>ISIC_nv\<close> at positions 2099 and
  2100, and the split sends position 2099 to the train part and position 2100 to the
  test part: the record is in both.
\<close>

theorem repeated_record_counterexample:
  "map_sum id (\<lambda>b. (length b, b ! 2099, b ! 2100)) (balanced_from_csv stride_rng 0 seven_rows)
     = Inr (2800, seven_by_label 5, seven_by_label 5)
   \<and> image_id (snd (seven_by_label 5)) = ''ISIC_nv''
   \<and> validate_shuffle_split 2800 (1 / 4) = Inr (2100, 700)
   \<and> 2099 \<in> set (fst (shuffle_split stride_rng 0 2800 2100 700 (Seed_Int 42)))
   \<and> 2100 \<in> set (snd (shuffle_split stride_rng 0 2800 2100 700 (Seed_Int 42)))"
proof -
  let ?b = "concat (map (\<lambda>i. replicate 400 (seven_by_label i)) [0..<7])"
  have b: "balanced_from_csv stride_rng 0 seven_rows = Inr ?b"
    by (rule seven_rows_balanced_blocks [OF stride_rng_randint_ok])
  have d: "2099 div 400 = (5::nat)" "2100 div 400 = (5::nat)" by simp_all
  have "?b ! 2099 = seven_by_label (2099 div 400)" by (rule seven_blocks_nth) simp
  then have n1: "?b ! 2099 = seven_by_label 5" by (simp only: d)
  have "?b ! 2100 = seven_by_label (2100 div 400)" by (rule seven_blocks_nth) simp
  then have n2: "?b ! 2100 = seven_by_label 5" by (simp only: d)
  have c1: "map_sum id (\<lambda>b. (length b, b ! 2099, b ! 2100)) (balanced_from_csv stride_rng 0 seven_rows)
     = Inr (2800, seven_by_label 5, seven_by_label 5)"
    unfolding b by (simp only: map_sum.simps seven_blocks_length n1 n2)
  have c2: "image_id (snd (seven_by_label 5)) = ''ISIC_nv''"
    by (simp add: seven_by_label_def)
  have c3: "validate_shuffle_split 2800 (1 / 4) = Inr (2100, 700)"
    by (simp add: validate_shuffle_split_def Let_def)
  have p: "rs_permutation stride_rng (check_random_state stride_rng 0 (Seed_Int 42)) n = rev [0..<n]" for n
    by (simp add: stride_rng_def)
  have k: "(700::nat) \<le> 2800" "2800 - 700 = (2100::nat)" by simp_all
  have tr: "take 2100 (rev [0..<2100]) = rev [0..<2100]" by (rule take_all) (simp only: length_rev length_upt)
  have ss: "shuffle_split stride_rng 0 2800 2100 700 (Seed_Int 42) = (rev [0..<2100], rev [2100..<2800])"
    unfolding shuffle_split_def Let_def p
    by (simp only: drop_rev_upt take_rev_upt [OF k(1)] k(2) tr)
  have m1: "2099 \<in> set (rev [0..<2100])" by (simp only: set_rev set_upt atLeastLessThan_iff) simp
  have m2: "2100 \<in> set (rev [2100..<2800])" by (simp only: set_rev set_upt atLeastLessThan_iff) simp
  have c4: "2099 \<in> set (fst (shuffle_split stride_rng 0 2800 2100 700 (Seed_Int 42)))"
    unfolding ss fst_conv by (rule m1)
  have c5: "2100 \<in> set (snd (shuffle_split stride_rng 0 2800 2100 700 (Seed_Int 42)))"
    unfolding ss snd_conv by (rule m2)
  show ?thesis
    by (intro conjI) (rule c1 c2 c3 c4 c5)+
qed

section \<open>The evaluator\<close>

lemma argmax_from_range:
  "argmax_from best bv i xs = best \<or> (i \<le> argmax_from best bv i xs \<and> argmax_from best bv i xs < i + length xs)"
proof (induction xs arbitrary: best bv i)
  case Nil
  then show ?case by simp
next
  case (Cons x xs)
  show ?case
  proof (cases "bv < x")
    case True
    with Cons [of i x "Suc i"] show ?thesis by auto
  next
    case False
    with Cons [of best bv "Suc i"] show ?thesis by auto
  qed
qed

lemma np_argmax_less:
  "np_argmax v = Inr k \<Longrightarrow> k < length v"
  using argmax_from_range [of 0 "hd v" 1 "tl v"]
  by (cases v) (auto simp: np_argmax_def)

lemma np_argmax_total:
  "v \<noteq> [] \<Longrightarrow> \<exists>k. np_argmax v = Inr k"
  by (cases v) (auto simp: np_argmax_def)

lemma traverse_np_argmax:
  assumes "\<forall>r \<in> set rows. length r = 7"
  shows "traverse np_argmax rows = Inr (map (\<lambda>r. projr (np_argmax r)) rows)"
    and "\<forall>r \<in> set rows. np_argmax r = Inr (projr (np_argmax r)) \<and> projr (np_argmax r) < 7"
proof -
  have a: "np_argmax r = Inr (projr (np_argmax r)) \<and> projr (np_argmax r) < 7" if "r \<in> set rows" for r
  proof -
    from that assms have l: "length r = 7" by simp
    then have "r \<noteq> []" by auto
    from np_argmax_total [OF this] obtain k where k: "np_argmax r = Inr k" by blast
    with np_argmax_less [OF k] l show ?thesis by simp
  qed
  then show "\<forall>r \<in> set rows. np_argmax r = Inr (projr (np_argmax r)) \<and> projr (np_argmax r) < 7"
    by blast
  show "traverse np_argmax rows = Inr (map (\<lambda>r. projr (np_argmax r)) rows)"
    by (rule traverse_map) (use a in blast)
qed

lemma count_pairs_row:
  "sum_list (map (\<lambda>b. length (filter (\<lambda>tp. tp = (a, b)) zs)) [0..<n])
     = length (filter (\<lambda>tp. fst tp = a \<and> snd tp < n) zs)"
proof (induction zs)
  case Nil
  then show ?case by simp
next
  case (Cons z zs)
  obtain t p where z: "z = (t, p)" by (cases z)
  have one: "sum_list (map (\<lambda>b. if z = (a, b) then 1 else 0) [0..<n])
      = (if fst z = a \<and> snd z < n then 1 else (0::nat))"
  proof (cases "t = a")
    case True
    have "sum_list (map (\<lambda>b. if z = (a, b) then 1 else 0) [0..<n])
        = (\<Sum>b \<in> {0..<n}. if p = b then 1 else (0::nat))"
      by (simp add: interv_sum_list_conv_sum_set_nat z True)
    also have "\<dots> = (if p \<in> {0..<n} then 1 else 0)"
      by (simp only: sum.delta' finite_atLeastLessThan)
    finally show ?thesis by (simp add: z True)
  next
    case False
    then have "map (\<lambda>b. if z = (a, b) then 1 else (0::nat)) [0..<n] = map (\<lambda>b. 0) [0..<n]"
      by (simp add: z)
    then show ?thesis using False by (simp add: z)
  qed
  have "sum_list (map (\<lambda>b. length (filter (\<lambda>tp. tp = (a, b)) (z # zs))) [0..<n])
      = sum_list (map (\<lambda>b. (if z = (a, b) then 1 else 0)
                              + length (filter (\<lambda>tp. tp = (a, b)) zs)) [0..<n])"
    by (intro arg_cong [where f = sum_list] map_cong) auto
  also have "\<dots> = sum_list (map (\<lambda>b. if z = (a, b) then 1 else 0) [0..<n])
      + sum_list (map (\<lambda>b. length (filter (\<lambda>tp. tp = (a, b)) zs)) [0..<n])"
    by (simp add: sum_list_addf)
  finally show ?case using one Cons by simp
qed

lemma count_fst_zip:
  "length xs = length ys \<Longrightarrow>
     length (filter (\<lambda>tp. fst tp = a) (zip xs ys)) = length (filter (\<lambda>t. t = a) xs)"
  by (induction xs ys rule: list_induct2) auto

lemma unique_labels_full:
  assumes "set (y_true @ y_pred) = {0..<n}"
  shows "unique_labels y_true y_pred = [0..<n]"
proof -
  have "sorted (unique_labels y_true y_pred)" "distinct (unique_labels y_true y_pred)"
    "set (unique_labels y_true y_pred) = set [0..<n]"
    using assms by (simp_all add: unique_labels_def)
  then show ?thesis
    by (intro sorted_distinct_set_unique) simp_all
qed

lemma confusion_matrix_full:
  assumes "length y_true = length y_pred" and "set (y_true @ y_pred) = {0..<n}"
  shows "confusion_matrix y_true y_pred
           = Inr (map (\<lambda>a. map (\<lambda>b. length (filter (\<lambda>tp. tp = (a, b)) (zip y_true y_pred)))
                              [0..<n]) [0..<n])"
  using assms(1) by (simp add: confusion_matrix_def Let_def unique_labels_full [OF assms(2)])

lemma confusion_matrix_row_sum:
  assumes "length y_true = length y_pred" and "\<forall>p \<in> set y_pred. p < n"
  shows "sum_list (map (\<lambda>b. length (filter (\<lambda>tp. tp = (a, b)) (zip y_true y_pred))) [0..<n])
           = length (filter (\<lambda>t. t = a) y_true)"
proof -
  have "\<forall>tp \<in> set (zip y_true y_pred). snd tp < n"
    using assms(2) by (auto dest: set_zip_rightD)
  then have "filter (\<lambda>tp. fst tp = a \<and> snd tp < n) (zip y_true y_pred)
      = filter (\<lambda>tp. fst tp = a) (zip y_true y_pred)"
    by (intro filter_cong) auto
  then show ?thesis
    by (simp add: count_pairs_row count_fst_zip [OF assms(1)])
qed


lemma incorr_fraction_nth:
  assumes "i < length cm" and "0 < sum_list (cm ! i)"
  shows "incorr_fraction cm ! i = Some (1 - real (cm ! i ! i) / real (sum_list (cm ! i)))"
proof -
  have "incorr_fraction cm ! i
      = (let d = (cm ! i) ! i; s = sum_list (cm ! i) in
         if s = 0 then None else Some (1 - real d / real s))"
    using assms(1) unfolding incorr_fraction_def by (subst nth_map) simp_all
  also have "\<dots> = Some (1 - real (cm ! i ! i) / real (sum_list (cm ! i)))"
    using assms(2) unfolding Let_def by (simp only: if_False less_numeral_extra(3) less_irrefl neq0_conv [symmetric] refl)
  finally show ?thesis .
qed

text \<open>
  What the evaluator returns when every class id is the true class of some test record.
  Provided also that the network returns one row of seven scores per test image and the
  test labels are rows of seven entries, the matrix is 7 by 7, its entry (i, j) counts the
  test records with true class i and predicted class j, the sum of row i is the number
  of test records with true class i, and the fraction reported for class i is 1 minus
  entry (i, i) divided by that sum. Without the first condition the matrix has one row
  per class id that occurs, true or predicted.
\<close>

lemma evaluate_confusion_matrix:
  assumes "length (model x_test) = length y_test"
    and "\<forall>r \<in> set (model x_test). length r = 7"
    and "\<forall>r \<in> set y_test. length r = 7"
    and "\<forall>c<7. \<exists>r \<in> set y_test. np_argmax r = Inr c"
  shows "\<exists>cm fr. evaluate model x_test y_test = Inr (cm, fr)
           \<and> length cm = 7 \<and> (\<forall>row \<in> set cm. length row = 7) \<and> length fr = 7
           \<and> (\<forall>i<7. \<forall>j<7. cm ! i ! j
                  = length (filter (\<lambda>tp. np_argmax (fst tp) = Inr i \<and> np_argmax (snd tp) = Inr j)
                              (zip y_test (model x_test))))
           \<and> (\<forall>i<7. sum_list (cm ! i) = length (filter (\<lambda>r. np_argmax r = Inr i) y_test)
                  \<and> 0 < sum_list (cm ! i)
                  \<and> fr ! i = Some (1 - real (cm ! i ! i) / real (sum_list (cm ! i))))"
proof -
  define am where "am = (\<lambda>r. projr (np_argmax r))"
  define t where "t = map am y_test"
  define p where "p = map am (model x_test)"
  define cm where "cm = map (\<lambda>a. map (\<lambda>b. length (filter (\<lambda>tp. tp = (a, b)) (zip t p))) [0..<7]) [0..<7]"
  have tp: "traverse np_argmax (model x_test) = Inr p"
    "\<forall>r \<in> set (model x_test). np_argmax r = Inr (am r) \<and> am r < 7"
    using traverse_np_argmax [OF assms(2)] by (simp_all add: p_def am_def)
  have tt: "traverse np_argmax y_test = Inr t"
    "\<forall>r \<in> set y_test. np_argmax r = Inr (am r) \<and> am r < 7"
    using traverse_np_argmax [OF assms(3)] by (simp_all add: t_def am_def)
  have len: "length t = length p" using assms(1) by (simp add: t_def p_def)
  have pl: "\<forall>k \<in> set p. k < 7" using tp(2) by (auto simp: p_def)
  have tl: "\<forall>k \<in> set t. k < 7" using tt(2) by (auto simp: t_def)
  have am_t: "(am r = i) = (np_argmax r = Inr i)" if "r \<in> set y_test" for r i
    using tt(2) that by (metis sum.inject(2))
  have am_p: "(am r = i) = (np_argmax r = Inr i)" if "r \<in> set (model x_test)" for r i
    using tp(2) that by (metis sum.inject(2))
  have cover: "c \<in> set t" if "c < 7" for c
  proof -
    from assms(4) that obtain r where r: "r \<in> set y_test" "np_argmax r = Inr c" by blast
    then have "am r = c" by (simp add: am_t)
    with r(1) show ?thesis unfolding t_def by force
  qed
  have full: "set (t @ p) = {0..<7}"
  proof
    show "set (t @ p) \<subseteq> {0..<7}" using pl tl by auto
    show "{0..<7} \<subseteq> set (t @ p)" using cover by auto
  qed
  have cmx: "confusion_matrix t p = Inr cm"
    unfolding cm_def by (rule confusion_matrix_full [OF len full])
  have ev: "evaluate model x_test y_test = Inr (cm, incorr_fraction cm)"
    by (simp add: evaluate_def tp(1) tt(1) cmx)
  have lcm: "length cm = 7" by (simp add: cm_def)
  have rows7: "\<forall>row \<in> set cm. length row = 7" by (auto simp: cm_def)
  have lfr: "length (incorr_fraction cm) = 7" by (simp add: incorr_fraction_def lcm)
  have row: "cm ! i = map (\<lambda>b. length (filter (\<lambda>tp. tp = (i, b)) (zip t p))) [0..<7]"
    if "i < 7" for i
    using that by (simp add: cm_def)
  have rs: "sum_list (cm ! i) = length (filter (\<lambda>r. np_argmax r = Inr i) y_test)" if "i < 7" for i
  proof -
    have "sum_list (cm ! i) = length (filter (\<lambda>k. k = i) t)"
      unfolding row [OF that] by (rule confusion_matrix_row_sum [OF len pl])
    also have "\<dots> = length (filter (\<lambda>r. am r = i) y_test)"
      by (simp add: t_def filter_map comp_def)
    also have "filter (\<lambda>r. am r = i) y_test = filter (\<lambda>r. np_argmax r = Inr i) y_test"
      by (rule filter_cong [OF refl]) (rule am_t)
    finally show ?thesis .
  qed
  have pos: "0 < sum_list (cm ! i)" if "i < 7" for i
  proof -
    from assms(4) that obtain r where "r \<in> set y_test" "np_argmax r = Inr i" by blast
    then have "filter (\<lambda>r. np_argmax r = Inr i) y_test \<noteq> []"
      by (auto simp: filter_empty_conv)
    then show ?thesis unfolding rs [OF that] by simp
  qed
  have fr: "incorr_fraction cm ! i = Some (1 - real (cm ! i ! i) / real (sum_list (cm ! i)))"
    if "i < 7" for i
  proof -
    have "i < length cm" using that lcm by simp
    from incorr_fraction_nth [OF this pos [OF that]] show ?thesis .
  qed
  have entry: "cm ! i ! j
      = length (filter (\<lambda>tp. np_argmax (fst tp) = Inr i \<and> np_argmax (snd tp) = Inr j)
                  (zip y_test (model x_test)))" if "i < 7" "j < 7" for i j
  proof -
    have z: "zip t p = map (\<lambda>tp. (am (fst tp), am (snd tp))) (zip y_test (model x_test))"
      by (simp add: t_def p_def zip_map_map case_prod_beta)
    have "cm ! i ! j = length (filter (\<lambda>tp. tp = (i, j)) (zip t p))"
      using that by (simp add: row)
    also have "\<dots> = length (filter (\<lambda>tp. am (fst tp) = i \<and> am (snd tp) = j)
                                (zip y_test (model x_test)))"
      unfolding z by (simp add: filter_map comp_def)
    also have "filter (\<lambda>tp. am (fst tp) = i \<and> am (snd tp) = j) (zip y_test (model x_test))
        = filter (\<lambda>tp. np_argmax (fst tp) = Inr i \<and> np_argmax (snd tp) = Inr j)
            (zip y_test (model x_test))"
    proof (rule filter_cong [OF refl])
      fix tp assume m: "tp \<in> set (zip y_test (model x_test))"
      obtain a b where ab: "tp = (a, b)" by (cases tp)
      from m ab have "a \<in> set y_test" "b \<in> set (model x_test)"
        by (auto dest: set_zip_leftD set_zip_rightD)
      then show "(am (fst tp) = i \<and> am (snd tp) = j)
          = (np_argmax (fst tp) = Inr i \<and> np_argmax (snd tp) = Inr j)"
        by (simp add: ab am_t am_p)
    qed
    finally show ?thesis .
  qed
  have c5: "\<forall>i<7. \<forall>j<7. cm ! i ! j
                  = length (filter (\<lambda>tp. np_argmax (fst tp) = Inr i \<and> np_argmax (snd tp) = Inr j)
                              (zip y_test (model x_test)))"
    using entry by blast
  have c6: "\<forall>i<7. sum_list (cm ! i) = length (filter (\<lambda>r. np_argmax r = Inr i) y_test)
                  \<and> 0 < sum_list (cm ! i)
                  \<and> fr' ! i = Some (1 - real (cm ! i ! i) / real (sum_list (cm ! i)))"
    if "fr' = incorr_fraction cm" for fr'
    using rs pos fr that by blast
  show ?thesis
    by (intro exI [of _ cm] exI [of _ "incorr_fraction cm"] conjI)
      (rule ev lcm rows7 lfr c5 c6 [OF refl])+
qed

lemma seven_one_hot_argmax:
  "c < 7 \<Longrightarrow> seven_one_hot ! c = (replicate 7 0)[c := 1] \<and> np_argmax (seven_one_hot ! c) = Inr c"
  by (simp add: seven_one_hot_def np_argmax_one_hot del: upt_Suc)

lemma evaluate_confusion_matrix_seven:
  "\<exists>cm fr. evaluate (always_predicts 0) seven_files seven_one_hot = Inr (cm, fr)
     \<and> length cm = 7 \<and> length (cm ! 3) = 7
     \<and> sum_list (cm ! 3) = length (filter (\<lambda>r. np_argmax r = Inr 3) seven_one_hot)
     \<and> fr ! 3 = Some (1 - real (cm ! 3 ! 3) / real (sum_list (cm ! 3)))"
proof -
  have a1: "length (always_predicts 0 seven_files) = length seven_one_hot"
    by (simp add: always_predicts_def seven_files_def ham10000_dx_def seven_one_hot_def)
  have a2: "\<forall>r \<in> set (always_predicts 0 seven_files). length r = 7"
    by (simp add: always_predicts_def)
  have a3: "\<forall>r \<in> set seven_one_hot. length r = 7"
    by (simp add: seven_one_hot_def del: upt_Suc)
  have a4: "\<forall>c<7. \<exists>r \<in> set seven_one_hot. np_argmax r = Inr c"
  proof (intro allI impI)
    fix c :: nat assume c: "c < 7"
    then have "seven_one_hot ! c \<in> set seven_one_hot"
      by (simp add: seven_one_hot_def del: upt_Suc)
    with seven_one_hot_argmax [OF c] show "\<exists>r \<in> set seven_one_hot. np_argmax r = Inr c"
      by blast
  qed
  from evaluate_confusion_matrix [of "always_predicts 0" seven_files seven_one_hot, OF a1 a2 a3 a4]
  obtain cm fr where ev: "evaluate (always_predicts 0) seven_files seven_one_hot = Inr (cm, fr)"
    and l: "length cm = 7" and rows: "\<forall>row \<in> set cm. length row = 7"
    and s: "\<forall>i<7. sum_list (cm ! i) = length (filter (\<lambda>r. np_argmax r = Inr i) seven_one_hot)
                  \<and> 0 < sum_list (cm ! i)
                  \<and> fr ! i = Some (1 - real (cm ! i ! i) / real (sum_list (cm ! i)))"
    by blast
  have "cm ! 3 \<in> set cm" using l by simp
  with rows have r3: "length (cm ! 3) = 7" by blast
  from s have "sum_list (cm ! 3) = length (filter (\<lambda>r. np_argmax r = Inr 3) seven_one_hot)
      \<and> fr ! 3 = Some (1 - real (cm ! 3 ! 3) / real (sum_list (cm ! 3)))"
    by simp
  with ev l r3 show ?thesis by blast
qed

text \<open>
  In the script the true classes of the test records are fixed by the shuffle alone: the
  balanced frame holds class \<open>c\<close> at positions \<open>400 * c\<close> to \<open>400 * c + 399\<close>, so
  every class is the true class of some test record as soon as the first 700 entries of
  the permutation of 2800 meet each of the seven blocks.
\<close>

lemma test_labels_cover:
  assumes "randint_ok R" and "permutation_ok R"
    and b: "skin_df_balanced R glob skin_df = Inr b"
    and Y: "Y_cat b = Inr Y"
    and X: "length X = length b"
    and split: "train_test_split R glob' X Y (1 / 4) (Seed_Int 42) = Inr (x_train, x_test, y_train, y_test)"
    and cover: "\<forall>c<7. \<exists>i \<in> set (take 700 (rs_permutation R (rs_seed R 42) 2800)). i div 400 = c"
  shows "length y_test = 700 \<and> (\<forall>r \<in> set y_test. length r = 7)
         \<and> (\<forall>c<7. \<exists>r \<in> set y_test. np_argmax r = Inr c)"
proof -
  let ?p = "rs_permutation R (rs_seed R 42) 2800"
  let ?hot = "\<lambda>c. (replicate 7 (0::real))[c := 1]"
  note pp = permutation_props [OF assms(2), of "rs_seed R 42" 2800]
  have lb: "length b = 2800" by (rule skin_df_balanced_length [OF assms(1) b])
  have Yeq: "Y = map (\<lambda>r. ?hot (label (snd r))) b" using Y_cat_Inr [OF b] Y by simp
  have lX: "length X = 2800" and lY: "length Y = 2800" using X lb Yeq by simp_all
  have v: "validate_shuffle_split (length X) (1 / 4) = Inr (2100, 700)"
    by (simp add: lX validate_shuffle_split_def Let_def)
  have len: "length X = length Y" using lX lY by simp
  from train_test_split_Inr(1) [OF assms(2) len v, of glob' "Seed_Int 42"] split
  have yt: "y_test = map ((!) Y) (take 700 ?p)" by (simp add: lX)
  have inr: "i < 2800" if "i \<in> set (take 700 ?p)" for i
    using that set_take_subset [of 700 ?p] pp(2) by auto
  have row: "Y ! i = ?hot (i div 400) \<and> i div 400 < 7" if "i \<in> set (take 700 ?p)" for i
  proof -
    have i: "i < 2800" by (rule inr [OF that])
    then have "Y ! i = ?hot (label (snd (b ! i)))" using lb by (simp add: Yeq)
    with balanced_label_by_position [OF assms(1) b i] i show ?thesis
      by (simp add: div_less_iff_less_mult)
  qed
  have l: "length y_test = 700" using yt pp(1) by simp
  have r7: "\<forall>r \<in> set y_test. length r = 7"
    unfolding yt using row by auto
  have cov: "\<exists>r \<in> set y_test. np_argmax r = Inr c" if c: "c < 7" for c
  proof -
    from cover c obtain i where i: "i \<in> set (take 700 ?p)" "i div 400 = c" by blast
    have "Y ! i \<in> set y_test" unfolding yt using i(1) by simp
    moreover have "np_argmax (Y ! i) = Inr c"
      using row [OF i(1)] i(2) np_argmax_one_hot [OF c] by simp
    ultimately show ?thesis by blast
  qed
  from l r7 cov show ?thesis by blast
qed

section \<open>Single-image inference\<close>

lemma predict_skin_cancer_eq:
  assumes "disk path = Inr img"
    and "model [map_ndarray div255 (np_asarray (resize resampler img (SIZE, SIZE)))] = [scores]"
    and "np_argmax scores = Inr c" and "c < 7"
  shows "predict_skin_cancer disk resampler model path = Inr (class_names ! c)"
  using assms
  by (simp add: predict_skin_cancer_def load_and_preprocess_image_def Image_open_def class_names_def)

lemma predict_always:
  assumes "c < 7"
  shows "predict_skin_cancer (\<lambda>p. Inr img) resampler (always_predicts c) path = Inr (class_names ! c)"
  by (rule predict_skin_cancer_eq [OF refl _ np_argmax_one_hot [OF assms] assms])
    (simp add: always_predicts_def)

lemma le_fit_ham10000:
  "le_fit ham10000_dx = [''akiec'', ''bcc'', ''bkl'', ''df'', ''mel'', ''nv'', ''vasc'']"
  by code_simp

lemma le_fit_any_ham10000_column:
  assumes "set ys = set ham10000_dx"
  shows "le_fit ys = [''akiec'', ''bcc'', ''bkl'', ''df'', ''mel'', ''nv'', ''vasc'']"
proof -
  have s: "sorted [''akiec'', ''bcc'', ''bkl'', ''df'', ''mel'', ''nv'', ''vasc'']"
    "distinct [''akiec'', ''bcc'', ''bkl'', ''df'', ''mel'', ''nv'', ''vasc'']"
    by code_simp+
  have "set (le_fit ys) = set [''akiec'', ''bcc'', ''bkl'', ''df'', ''mel'', ''nv'', ''vasc'']"
    using assms by (auto simp: le_fit_def ham10000_dx_def)
  then show ?thesis
    using s by (intro sorted_distinct_set_unique) (simp_all add: le_fit_def)
qed

text \<open>
  Claim C1. The helper resizes, divides by 255, adds the batch axis, runs the network,
  takes the arg-max and indexes \<open>class_names\<close> with it. The list is not in the order
  of the label ids: the encoder numbers the diagnosis codes of the table alphabetically,
  so id 0 is \<^verbatim>\<open>akiec\<close>, actinic keratoses, and the helper answers an arg-max of 0 with
  the name of \<^verbatim>\<open>nv\<close>, melanocytic nevi. Of the seven ids only id 2 gets its own name.
\<close>

theorem class_names_not_in_label_order:
  "le_fit ham10000_dx = [''akiec'', ''bcc'', ''bkl'', ''df'', ''mel'', ''nv'', ''vasc'']
   \<and> le_inverse_transform (le_fit ham10000_dx) [0] = Inr [''akiec'']
   \<and> lesion_type_dict ''akiec'' = Some ''Actinic keratoses''
   \<and> predict_skin_cancer (\<lambda>p. Inr colour_jpeg) nearest (always_predicts 0)
        ''data/HAM10000/part_1/ISIC_akiec.jpg'' = Inr ''Melanocytic nevi''
   \<and> map lesion_type_dict (le_fit ham10000_dx)
        = map Some [''Actinic keratoses'', ''Basal cell carcinoma'', ''Benign keratosis-like lesions'',
                    ''Dermatofibroma'', ''Melanoma'', ''Melanocytic nevi'', ''Vascular lesions'']
   \<and> map (\<lambda>c. predict_skin_cancer (\<lambda>p. Inr colour_jpeg) nearest (always_predicts c)
                  ''data/HAM10000/part_1/ISIC_akiec.jpg'') [0, 1, 2, 3, 4, 5, 6]
        = map Inr [''Melanocytic nevi'', ''Melanoma'', ''Benign keratosis-like lesions'',
                   ''Basal cell carcinoma'', ''Actinic keratoses'', ''Vascular lesions'',
                   ''Dermatofibroma'']"
proof -
  have inv: "le_inverse_transform (le_fit ham10000_dx) [0] = Inr [''akiec'']"
    by (simp add: le_fit_ham10000 le_inverse_transform_def)
  have leg: "lesion_type_dict ''akiec'' = Some ''Actinic keratoses''"
    by (simp add: lesion_type_dict_def)
  have legs: "map lesion_type_dict (le_fit ham10000_dx)
        = map Some [''Actinic keratoses'', ''Basal cell carcinoma'', ''Benign keratosis-like lesions'',
                    ''Dermatofibroma'', ''Melanoma'', ''Melanocytic nevi'', ''Vascular lesions'']"
    by (simp add: le_fit_ham10000 lesion_type_dict_def)
  have p: "predict_skin_cancer (\<lambda>p. Inr colour_jpeg) nearest (always_predicts c)
             ''data/HAM10000/part_1/ISIC_akiec.jpg'' = Inr (class_names ! c)" if "c < 7" for c
    by (rule predict_always [OF that])
  have p0: "predict_skin_cancer (\<lambda>p. Inr colour_jpeg) nearest (always_predicts 0)
        ''data/HAM10000/part_1/ISIC_akiec.jpg'' = Inr ''Melanocytic nevi''"
    using p [of 0] by (simp add: class_names_def)
  have pall: "map (\<lambda>c. predict_skin_cancer (\<lambda>p. Inr colour_jpeg) nearest (always_predicts c)
                  ''data/HAM10000/part_1/ISIC_akiec.jpg'') [0, 1, 2, 3, 4, 5, 6]
        = map Inr [''Melanocytic nevi'', ''Melanoma'', ''Benign keratosis-like lesions'',
                   ''Basal cell carcinoma'', ''Actinic keratoses'', ''Vascular lesions'',
                   ''Dermatofibroma'']"
    by (simp add: p class_names_def)
  from le_fit_ham10000 inv leg p0 legs pall show ?thesis by (intro conjI)
qed

end
